theory Spec2Isabelle
  imports Main "HOL-Library.Word"
begin

unbundle bit_operations_syntax

section \<open>The KDB on-device debugger: data model\<close>

text \<open>
  A shallow embedding of \<^verbatim>\<open>src/kdb.h\<close> and \<^verbatim>\<open>src/kdb.cpp\<close>. Bytes
  (\<^verbatim>\<open>uint8_t\<close>) are 8-bit words; addresses, \<^verbatim>\<open>size_t\<close> and
  \<^verbatim>\<open>unsigned\<close> line numbers are 32-bit words (\<^verbatim>\<open>capture\<close> shifts an address
  right by 24, so the target's \<^verbatim>\<open>size_t\<close> has 32 bits).
\<close>

type_synonym u8 = "8 word"
type_synonym u32 = "32 word"

text \<open>\<^verbatim>\<open>enum _KDB_OpType\<close> (kdb.h, lines 20 to 36), in declaration order.\<close>

datatype KDB_OpType =
    KDB_RETURN
  | KDB_READ_MEM
  | KDB_WRITE_MEM
  | KDB_READ_CAP
  | KDB_WRITE_CAP
  | KDB_READ_PIN
  | KDB_WRITE_PIN
  | KDB_INIT
  | KDB_DEBUGGER
  | KDB_CAPTURE
  | KDB_READ_MEM_RES
  | KDB_READ_CAP_RES
  | KDB_READ_PIN_RES
  | KDB_PRINT

definition KDB_OpType_enumerators :: "KDB_OpType list" where
  "KDB_OpType_enumerators =
     [KDB_RETURN, KDB_READ_MEM, KDB_WRITE_MEM, KDB_READ_CAP, KDB_WRITE_CAP, KDB_READ_PIN,
      KDB_WRITE_PIN, KDB_INIT, KDB_DEBUGGER, KDB_CAPTURE, KDB_READ_MEM_RES, KDB_READ_CAP_RES,
      KDB_READ_PIN_RES, KDB_PRINT]"

text \<open>
  An enumerator without initialiser has the value of its predecessor plus one, the first
  one has value 0: the value is the position in the declaration.
\<close>

fun enum_pos :: "'a list \<Rightarrow> 'a \<Rightarrow> nat" where
  "enum_pos [] x = 0"
| "enum_pos (y # ys) x = (if x = y then 0 else Suc (enum_pos ys x))"

text \<open>The enumerator as it is passed to a \<^verbatim>\<open>uint8_t\<close> parameter or compared with one.\<close>

definition opcode :: "KDB_OpType \<Rightarrow> u8" where
  "opcode t = of_nat (enum_pos KDB_OpType_enumerators t)"

text \<open>\<^verbatim>\<open>struct _KDB_PtrWithSize\<close> (kdb.h, lines 39 to 43).\<close>

record KDB_PtrWithSize =
  slot_size :: u8
  slot_ptr :: u32

text \<open>
  What the program does to its surroundings, in program order: a byte handed to
  \<^verbatim>\<open>_KDB_Serial.write\<close>, or a call of \<^verbatim>\<open>delay\<close>.
\<close>

datatype wire_event = Wr u8 | Delay nat

text \<open>
  \<^verbatim>\<open>class _KDB\<close> (kdb.h, lines 46 to 84): the four member variables, followed by
  the surroundings the methods act on: the memory reached through raw addresses, the
  digital pins, and the trace of serial writes and delays. The object itself is kept
  apart from \<open>memory\<close>: \<open>memory\<close> holds the bytes that are not the object's, and
  \<open>own\<close> tells which addresses the object itself occupies (its four members). No method
  reads or changes \<open>own\<close>. A \<^verbatim>\<open>memcpy\<close> whose address range meets \<open>own\<close> would
  read or overwrite the members in the program; in the model it reads or writes \<open>memory\<close>
  like any other, so a statement that depends on the members being left alone carries
  that as a hypothesis (\<open>op_meets\<close> below).
\<close>

record kdb =
  caps :: "KDB_PtrWithSize list"
  capsize :: u8
  readbuf :: "u8 list"
  loops :: bool
  memory :: "u32 \<Rightarrow> u8"
  pin_level :: "u8 \<Rightarrow> u8"
  serial_out :: "wire_event list"
  own :: "u32 \<Rightarrow> bool"

text \<open>Both arrays have 32 elements.\<close>

definition kdb_ok :: "kdb \<Rightarrow> bool" where
  "kdb_ok s \<longleftrightarrow> length (caps s) = 32 \<and> length (readbuf s) = 32"

text \<open>
  An access outside \<^verbatim>\<open>readbuf[32]\<close> or \<^verbatim>\<open>caps[32]\<close> is undefined behaviour in
  C++; the model stops there and names the array and the index.
\<close>

datatype fault = ReadbufIndex nat | CapsIndex nat

text \<open>
  The serial input is the list of the results of the successive polls
  \<^verbatim>\<open>_KDB_Serial.available()\<close>: \<open>None\<close> when no byte is waiting, \<open>Some b\<close> when one
  is, which the \<^verbatim>\<open>read()\<close> that follows takes. A call ends in one of three ways: it
  returns; it is still polling when the recorded input ends (\<open>Starved\<close>, with the state
  reached); or it leaves an array (\<open>Undefined\<close>).
\<close>

type_synonym poll = "u8 option"

datatype 'a result = Returned 'a | Starved kdb | Undefined fault kdb

primrec and_then :: "'a result \<Rightarrow> ('a \<Rightarrow> 'b result) \<Rightarrow> 'b result" where
  "and_then (Returned x) f = f x"
| "and_then (Starved s) f = Starved s"
| "and_then (Undefined e s) f = Undefined e s"

section \<open>Construction and the surroundings\<close>

text \<open>
  The constructor (kdb.cpp, lines 12 to 21), given the surroundings and the place of the
  object.
\<close>

definition KDB_new :: "(u32 \<Rightarrow> u8) \<Rightarrow> (u8 \<Rightarrow> u8) \<Rightarrow> (u32 \<Rightarrow> bool) \<Rightarrow> kdb" where
  "KDB_new m p obj =
     \<lparr>caps = replicate 32 \<lparr>slot_size = 0, slot_ptr = 0\<rparr>,
      capsize = 0,
      readbuf = replicate 32 0,
      loops = False,
      memory = m, pin_level = p, serial_out = [], own = obj\<rparr>"

text \<open>
  The object as constructed, where all memory is zero and every pin is low; the object
  lies somewhere from address 512 on, the addresses below are free memory.
\<close>

definition KDB_fresh :: kdb where
  "KDB_fresh = KDB_new (\<lambda>a. 0) (\<lambda>p. 0) (\<lambda>a. 512 \<le> a)"

definition Serial_write :: "kdb \<Rightarrow> u8 \<Rightarrow> kdb" where
  "Serial_write s b = s\<lparr>serial_out := serial_out s @ [Wr b]\<rparr>"

definition delay :: "kdb \<Rightarrow> nat \<Rightarrow> kdb" where
  "delay s ms = s\<lparr>serial_out := serial_out s @ [Delay ms]\<rparr>"

definition digitalRead :: "kdb \<Rightarrow> u8 \<Rightarrow> u8" where
  "digitalRead s pin = pin_level s pin"

definition digitalWrite :: "kdb \<Rightarrow> u8 \<Rightarrow> u8 \<Rightarrow> kdb" where
  "digitalWrite s pin v = s\<lparr>pin_level := (pin_level s)(pin := v)\<rparr>"

text \<open>The \<open>n\<close> bytes of memory from address \<open>a\<close> on.\<close>

definition mem_read :: "(u32 \<Rightarrow> u8) \<Rightarrow> u32 \<Rightarrow> nat \<Rightarrow> u8 list" where
  "mem_read m a n = map (\<lambda>i. m (a + of_nat i)) [0..<n]"

text \<open>Memory after the bytes \<open>bs\<close> have been stored from address \<open>a\<close> on.\<close>

primrec mem_write :: "(u32 \<Rightarrow> u8) \<Rightarrow> u32 \<Rightarrow> u8 list \<Rightarrow> (u32 \<Rightarrow> u8)" where
  "mem_write m a [] = m"
| "mem_write m a (b # bs) = mem_write (m(a := b)) (a + 1) bs"

text \<open>
  \<^verbatim>\<open>memcpy(readbuf, (void *)src, n)\<close>: \<open>n\<close> bytes of memory into the start of the
  scratch buffer. The bytes come from \<open>memory\<close> whatever the address: where the range
  meets \<open>own\<close> the program would read the members instead.
\<close>

definition memcpy_to_readbuf :: "kdb \<Rightarrow> u32 \<Rightarrow> nat \<Rightarrow> kdb result" where
  "memcpy_to_readbuf s src n =
     (if n \<le> 32
      then Returned (s\<lparr>readbuf := mem_read (memory s) src n @ drop n (readbuf s)\<rparr>)
      else Undefined (ReadbufIndex 32) s)"

text \<open>
  \<^verbatim>\<open>memcpy((void *)dst, readbuf + off, n)\<close>: \<open>n\<close> bytes of the scratch buffer, from
  index \<open>off\<close> on, into memory. The bytes go to \<open>memory\<close> whatever the address: where
  the range meets \<open>own\<close> the program would overwrite the members instead, \<open>loops\<close>
  among them, and the model no longer follows it.
\<close>

definition memcpy_from_readbuf :: "kdb \<Rightarrow> u32 \<Rightarrow> nat \<Rightarrow> nat \<Rightarrow> kdb result" where
  "memcpy_from_readbuf s dst off n =
     (if off + n \<le> 32
      then Returned (s\<lparr>memory := mem_write (memory s) dst (take n (drop off (readbuf s)))\<rparr>)
      else Undefined (ReadbufIndex 32) s)"

section \<open>The frame writer\<close>

text \<open>
  \<^verbatim>\<open>_KDB::sendOp\<close> (kdb.cpp, lines 150 to 160). The loop counter is a
  \<^verbatim>\<open>uint8_t\<close> below \<open>opSize\<close>, so it never wraps and is a natural number here.
\<close>

function sendOp_loop :: "kdb \<Rightarrow> nat \<Rightarrow> u8 \<Rightarrow> kdb result" where
  "sendOp_loop s i opSize =
     (if i < unat opSize
      then (if i < 32 then sendOp_loop (Serial_write s (readbuf s ! i)) (Suc i) opSize
            else Undefined (ReadbufIndex i) s)
      else Returned s)"
  by pat_completeness auto
termination
  by (relation "measure (\<lambda>(s, i, opSize). unat opSize - i)") auto

definition sendOp :: "kdb \<Rightarrow> u8 \<Rightarrow> u8 \<Rightarrow> kdb result" where
  "sendOp s opType opSize =
     sendOp_loop
       (Serial_write (Serial_write (Serial_write (Serial_write s 0xA0) 0x1E) opType) opSize)
       0 opSize"

declare sendOp_loop.simps [simp del]

lemma Serial_write_fields [simp]:
  "caps (Serial_write s b) = caps s"
  "capsize (Serial_write s b) = capsize s"
  "readbuf (Serial_write s b) = readbuf s"
  "loops (Serial_write s b) = loops s"
  "memory (Serial_write s b) = memory s"
  "pin_level (Serial_write s b) = pin_level s"
  "serial_out (Serial_write s b) = serial_out s @ [Wr b]"
  by (simp_all add: Serial_write_def)

text \<open>The loop in closed form: inside the buffer, and when it leaves it.\<close>

lemma sendOp_loop_inside:
  "unat opSize \<le> 32 \<Longrightarrow>
   sendOp_loop s i opSize =
     Returned (s\<lparr>serial_out := serial_out s @ map (\<lambda>j. Wr (readbuf s ! j)) [i..<unat opSize]\<rparr>)"
proof (induction s i opSize rule: sendOp_loop.induct)
  case (1 s i opSize)
  show ?case
  proof (cases "i < unat opSize")
    case True
    then have i: "i < 32" using "1.prems" by simp
    have "sendOp_loop s i opSize = sendOp_loop (Serial_write s (readbuf s ! i)) (Suc i) opSize"
      using True i by (subst sendOp_loop.simps) simp
    also have "\<dots> = Returned (Serial_write s (readbuf s ! i)
        \<lparr>serial_out := serial_out (Serial_write s (readbuf s ! i)) @
           map (\<lambda>j. Wr (readbuf s ! j)) [Suc i..<unat opSize]\<rparr>)"
      using "1.IH" [OF True i "1.prems"] by simp
    finally show ?thesis
      using True by (simp add: Serial_write_def upt_conv_Cons)
  next
    case False
    then show ?thesis
      by (subst sendOp_loop.simps) simp
  qed
qed

lemma sendOp_loop_outside:
  "32 < unat opSize \<Longrightarrow> i \<le> 32 \<Longrightarrow>
   sendOp_loop s i opSize =
     Undefined (ReadbufIndex 32)
       (s\<lparr>serial_out := serial_out s @ map (\<lambda>j. Wr (readbuf s ! j)) [i..<32]\<rparr>)"
proof (induction s i opSize rule: sendOp_loop.induct)
  case (1 s i opSize)
  show ?case
  proof (cases "i < 32")
    case True
    then have lt: "i < unat opSize" using "1.prems" by simp
    have "sendOp_loop s i opSize = sendOp_loop (Serial_write s (readbuf s ! i)) (Suc i) opSize"
      using True lt by (subst sendOp_loop.simps) simp
    also have "\<dots> = Undefined (ReadbufIndex 32) (Serial_write s (readbuf s ! i)
        \<lparr>serial_out := serial_out (Serial_write s (readbuf s ! i)) @
           map (\<lambda>j. Wr (readbuf s ! j)) [Suc i..<32]\<rparr>)"
      using "1.IH" [OF lt True "1.prems"(1)] True by simp
    finally show ?thesis
      using True by (simp add: Serial_write_def upt_conv_Cons)
  next
    case False
    then have "i = 32" using "1.prems" by simp
    then show ?thesis
      using "1.prems" by (subst sendOp_loop.simps) simp
  qed
qed

lemma map_nth_upt_take:
  "n \<le> length xs \<Longrightarrow> map (\<lambda>j. f (xs ! j)) [0..<n] = map f (take n xs)"
  by (rule nth_equalityI) auto

text \<open>The bytes of a frame: the two sync bytes, the operation type, the length, the payload.\<close>

definition frame :: "u8 \<Rightarrow> u8 list \<Rightarrow> u8 list" where
  "frame opType payload = [0xA0, 0x1E, opType, of_nat (length payload)] @ payload"

lemma sendOp_inside:
  assumes "unat opSize \<le> 32" "length (readbuf s) = 32"
  shows "sendOp s opType opSize =
     Returned (s\<lparr>serial_out := serial_out s @
        map Wr (frame opType (take (unat opSize) (readbuf s)))\<rparr>)"
proof -
  have "map (\<lambda>j. Wr (readbuf s ! j)) [0..<unat opSize] = map Wr (take (unat opSize) (readbuf s))"
    using assms by (simp add: map_nth_upt_take)
  then show ?thesis
    using assms by (simp add: sendOp_def sendOp_loop_inside frame_def Serial_write_def)
qed

lemma sendOp_Returned_iff:
  "(\<exists>s'. sendOp s opType opSize = Returned s') \<longleftrightarrow> unat opSize \<le> 32"
proof (cases "unat opSize \<le> 32")
  case True
  then show ?thesis by (simp add: sendOp_def sendOp_loop_inside)
next
  case False
  then show ?thesis by (simp add: sendOp_def sendOp_loop_outside)
qed

lemma sendOp_keeps:
  assumes "sendOp s opType opSize = Returned s'"
  shows "loops s' = loops s" "capsize s' = capsize s" "caps s' = caps s"
    "readbuf s' = readbuf s" "memory s' = memory s" "pin_level s' = pin_level s"
proof -
  have "unat opSize \<le> 32"
    using assms sendOp_Returned_iff by blast
  then have "s' = Serial_write (Serial_write (Serial_write (Serial_write s 0xA0) 0x1E) opType) opSize
      \<lparr>serial_out := serial_out (Serial_write (Serial_write (Serial_write (Serial_write s 0xA0) 0x1E) opType) opSize)
         @ map (\<lambda>j. Wr (readbuf s ! j)) [0..<unat opSize]\<rparr>"
    using assms by (simp add: sendOp_def sendOp_loop_inside)
  then show "loops s' = loops s" "capsize s' = capsize s" "caps s' = caps s"
    "readbuf s' = readbuf s" "memory s' = memory s" "pin_level s' = pin_level s"
    by simp_all
qed

lemma sendOp_loops: "sendOp s opType opSize = Returned s' \<Longrightarrow> loops s' = loops s"
  by (rule sendOp_keeps)

section \<open>The frame reader and the dispatcher\<close>

text \<open>
  \<^verbatim>\<open>_KDB::readSize\<close> (kdb.cpp, lines 246 to 264). \<open>sz\<close> in the loop is the
  argument \<^verbatim>\<open>size\<close> already decremented; \<open>pos\<close> stays at most 254.
\<close>

fun readSize_loop :: "kdb \<Rightarrow> u8 \<Rightarrow> nat \<Rightarrow> poll list \<Rightarrow> (kdb \<times> poll list) result" where
  "readSize_loop s sz pos [] = Starved s"
| "readSize_loop s sz pos (None # evs) = readSize_loop s sz pos evs"
| "readSize_loop s sz pos (Some b # evs) =
     (if pos < 32
      then (let s' = s\<lparr>readbuf := (readbuf s)[pos := b]\<rparr>
            in if pos = unat sz then Returned (s', evs)
               else readSize_loop s' sz (Suc pos) evs)
      else Undefined (ReadbufIndex pos) s)"

definition readSize :: "kdb \<Rightarrow> u8 \<Rightarrow> poll list \<Rightarrow> (kdb \<times> poll list) result" where
  "readSize s sz evs =
     (if sz = 0 then Returned (s, evs) else readSize_loop s (sz - 1) 0 evs)"

text \<open>
  \<^verbatim>\<open>_KDB::doOp\<close> (kdb.cpp, lines 162 to 212) in its two parts: lines 164 to 167
  receive the header and the payload, the \<^verbatim>\<open>switch\<close> of lines 173 to 211 acts on the
  operation type.
\<close>

definition doOp_recv :: "kdb \<Rightarrow> poll list \<Rightarrow> (u8 \<times> u8 \<times> kdb \<times> poll list) result" where
  "doOp_recv s evs =
     and_then (readSize s 2 evs) (\<lambda>(s1, evs1).
       let opType = readbuf s1 ! 0; opSize = readbuf s1 ! 1
       in and_then (readSize s1 opSize evs1) (\<lambda>(s2, evs2).
            Returned (opType, opSize, s2, evs2)))"

text \<open>
  The address of \<^verbatim>\<open>READ_MEM\<close> and \<^verbatim>\<open>WRITE_MEM\<close>:
  \<^verbatim>\<open>readbuf[0] << 24 | readbuf[1] << 16 | readbuf[2] << 8 | readbuf[3]\<close>.
\<close>

definition addr_of_readbuf :: "kdb \<Rightarrow> u32" where
  "addr_of_readbuf s =
     push_bit 24 (ucast (readbuf s ! 0)) OR push_bit 16 (ucast (readbuf s ! 1))
       OR push_bit 8 (ucast (readbuf s ! 2)) OR ucast (readbuf s ! 3)"

definition doOp_switch :: "u8 \<Rightarrow> kdb \<Rightarrow> kdb result" where
  "doOp_switch opType s =
     (if opType = opcode KDB_RETURN then Returned (s\<lparr>loops := False\<rparr>)
      else if opType = opcode KDB_READ_MEM then
        (let addr = addr_of_readbuf s; sz = readbuf s ! 4
         in and_then (memcpy_to_readbuf s addr (unat sz)) (\<lambda>s'.
              sendOp s' (opcode KDB_READ_MEM_RES) sz))
      else if opType = opcode KDB_WRITE_MEM then
        (let addr = addr_of_readbuf s; sz = readbuf s ! 4
         in memcpy_from_readbuf s addr 5 (unat sz))
      else if opType = opcode KDB_READ_PIN then
        (let pin = readbuf s ! 0
         in sendOp (s\<lparr>readbuf := (readbuf s)[0 := digitalRead s pin]\<rparr>) (opcode KDB_READ_PIN_RES) 1)
      else if opType = opcode KDB_WRITE_PIN then
        (let pin = readbuf s ! 0
         in Returned (digitalWrite s pin (readbuf s ! 1)))
      else if opType = opcode KDB_READ_CAP then
        (let pos = unat (readbuf s ! 0)
         in if pos < 32
            then (let p = caps s ! pos
                  in and_then (memcpy_to_readbuf s (slot_ptr p) (unat (slot_size p))) (\<lambda>s'.
                       sendOp s' (opcode KDB_READ_CAP_RES) (slot_size p)))
            else Undefined (CapsIndex pos) s)
      else if opType = opcode KDB_WRITE_CAP then
        (let pos = unat (readbuf s ! 0)
         in if pos < 32
            then (let p = caps s ! pos
                  in memcpy_from_readbuf s (slot_ptr p) 1 (unat (slot_size p)))
            else Undefined (CapsIndex pos) s)
      else Returned s)"

definition doOp :: "kdb \<Rightarrow> poll list \<Rightarrow> (kdb \<times> poll list) result" where
  "doOp s evs =
     and_then (doOp_recv s evs) (\<lambda>(opType, opSize, s', evs').
       and_then (doOp_switch opType s') (\<lambda>s''. Returned (s'', evs')))"

text \<open>What is left of the input after a call is never longer than what the call was given.\<close>

lemma readSize_loop_rest:
  "readSize_loop s sz pos evs = Returned (s', rest) \<Longrightarrow> length rest < length evs"
proof (induction s sz pos evs rule: readSize_loop.induct)
  case (1 s sz pos)
  then show ?case by simp
next
  case (2 s sz pos evs)
  then show ?case by fastforce
next
  case (3 s sz pos b evs)
  then show ?case
    by (fastforce simp: Let_def split: if_splits)
qed

lemma readSize_rest:
  "readSize s sz evs = Returned (s', rest) \<Longrightarrow> length rest \<le> length evs"
  by (auto simp: readSize_def split: if_splits dest: readSize_loop_rest)

lemma doOp_recv_rest:
  assumes "doOp_recv s evs = Returned (opType, opSize, s', rest)"
  shows "length rest \<le> length evs"
proof (cases "readSize s 2 evs")
  case (Returned a)
  obtain s1 evs1 where a: "a = (s1, evs1)" by (cases a)
  have l1: "length evs1 \<le> length evs"
    using Returned a by (auto dest: readSize_rest)
  show ?thesis
  proof (cases "readSize s1 (readbuf s1 ! 1) evs1")
    case r2: (Returned c)
    obtain s2 evs2 where c: "c = (s2, evs2)" by (cases c)
    have "length evs2 \<le> length evs1"
      using r2 c by (auto dest: readSize_rest)
    moreover have "rest = evs2"
      using assms Returned a r2 c by (simp add: doOp_recv_def Let_def)
    ultimately show ?thesis using l1 by simp
  next
    case (Starved x)
    then show ?thesis using assms Returned a by (simp add: doOp_recv_def Let_def)
  next
    case (Undefined e x)
    then show ?thesis using assms Returned a by (simp add: doOp_recv_def Let_def)
  qed
next
  case (Starved x)
  then show ?thesis using assms by (simp add: doOp_recv_def)
next
  case (Undefined e x)
  then show ?thesis using assms by (simp add: doOp_recv_def)
qed

lemma doOp_rest:
  assumes "doOp s evs = Returned (s', rest)"
  shows "length rest \<le> length evs"
proof (cases "doOp_recv s evs")
  case (Returned a)
  obtain opType opSize s1 evs1 where a: "a = (opType, opSize, s1, evs1)" by (cases a)
  have "rest = evs1"
    using assms Returned a by (cases "doOp_switch opType s1") (simp_all add: doOp_def)
  then show ?thesis
    using Returned a doOp_recv_rest by blast
next
  case (Starved x)
  then show ?thesis using assms by (simp add: doOp_def)
next
  case (Undefined e x)
  then show ?thesis using assms by (simp add: doOp_def)
qed

text \<open>
  \<^verbatim>\<open>_KDB::readOp\<close> (kdb.cpp, lines 213 to 244). \<open>maxloop\<close> is a
  \<^verbatim>\<open>uint8_t\<close>: decrementing 0 gives 255. The loop function takes the local
  \<open>isOp\<close> as an argument; \<open>readOp\<close> starts it at 0.
\<close>

function readOp_loop :: "kdb \<Rightarrow> u8 \<Rightarrow> u8 \<Rightarrow> poll list \<Rightarrow> (kdb \<times> poll list) result" where
  "readOp_loop s maxloop isOp evs =
     (if loops s
      then (let maxloop' = (if maxloop \<noteq> 255 then maxloop - 1 else maxloop)
            in if maxloop \<noteq> 255 \<and> maxloop' = 0 then Returned (s, evs)
               else (case evs of
                       [] \<Rightarrow> Starved s
                     | None # rest \<Rightarrow> readOp_loop s maxloop' isOp rest
                     | Some res # rest \<Rightarrow>
                         if res = 0xA0 then readOp_loop s maxloop' 1 rest
                         else if res = 0x1E
                         then (if isOp = 1
                               then (case doOp s rest of
                                       Returned (s', rest') \<Rightarrow> readOp_loop s' maxloop' 0 rest'
                                     | Starved t \<Rightarrow> Starved t
                                     | Undefined e t \<Rightarrow> Undefined e t)
                               else readOp_loop s maxloop' isOp rest)
                         else readOp_loop s maxloop' isOp rest))
      else Returned (s, evs))"
  by pat_completeness auto
termination
  by (relation "measure (\<lambda>(s, maxloop, isOp, evs). length evs)")
    (auto dest: doOp_rest)

definition readOp :: "kdb \<Rightarrow> u8 \<Rightarrow> poll list \<Rightarrow> (kdb \<times> poll list) result" where
  "readOp s maxloop evs = readOp_loop s maxloop 0 evs"

declare readOp_loop.simps [simp del]

lemma readOp_loop_stop:
  "\<not> loops s \<Longrightarrow> readOp_loop s maxloop isOp evs = Returned (s, evs)"
  by (simp add: readOp_loop.simps)

lemma readOp_loop_budget:
  "loops s \<Longrightarrow> readOp_loop s 1 isOp evs = Returned (s, evs)"
  by (simp add: readOp_loop.simps)

text \<open>\<open>maxloop\<close> after the test at the head of an iteration that goes on to poll.\<close>

definition maxloop_next :: "u8 \<Rightarrow> u8" where
  "maxloop_next maxloop = (if maxloop \<noteq> 255 then maxloop - 1 else maxloop)"

lemma maxloop_cond: "(maxloop \<noteq> 255 \<and> maxloop - 1 = 0) \<longleftrightarrow> maxloop = (1::u8)"
  by auto

lemma readOp_loop_poll:
  assumes "loops s" "maxloop \<noteq> 1"
  shows "readOp_loop s maxloop isOp [] = Starved s"
    and "readOp_loop s maxloop isOp (None # rest) = readOp_loop s (maxloop_next maxloop) isOp rest"
    and "readOp_loop s maxloop isOp (Some 0xA0 # rest) = readOp_loop s (maxloop_next maxloop) 1 rest"
    and "readOp_loop s maxloop 1 (Some 0x1E # rest) =
           (case doOp s rest of
              Returned (s', rest') \<Rightarrow> readOp_loop s' (maxloop_next maxloop) 0 rest'
            | Starved t \<Rightarrow> Starved t
            | Undefined e t \<Rightarrow> Undefined e t)"
    and "res \<noteq> 0xA0 \<Longrightarrow> \<not> (res = 0x1E \<and> isOp = 1) \<Longrightarrow>
           readOp_loop s maxloop isOp (Some res # rest) = readOp_loop s (maxloop_next maxloop) isOp rest"
  using assms
  by (auto simp add: readOp_loop.simps [of s maxloop] maxloop_next_def Let_def
      split: result.splits)

lemma readOp_loop_rest:
  "readOp_loop s maxloop isOp evs = Returned (s', rest) \<Longrightarrow> length rest \<le> length evs"
proof (induction "length evs" arbitrary: s maxloop isOp evs rule: less_induct)
  case less
  show ?case
  proof (cases "loops s \<and> maxloop \<noteq> 1")
    case False
    then show ?thesis
      using less.prems by (cases "loops s") (auto simp: readOp_loop_stop readOp_loop_budget)
  next
    case True
    then have go: "loops s" "maxloop \<noteq> 1" by simp_all
    show ?thesis
    proof (cases evs)
      case Nil
      then show ?thesis using less.prems by (simp add: readOp_loop_poll(1) [OF go])
    next
      case (Cons e evs0)
      show ?thesis
      proof (cases e)
        case None
        then show ?thesis
          using less.prems less.hyps [of evs0] Cons
          by (fastforce simp: readOp_loop_poll(2) [OF go])
      next
        case (Some res)
        consider "res = 0xA0" | "res = 0x1E" "isOp = 1" | "res \<noteq> 0xA0" "\<not> (res = 0x1E \<and> isOp = 1)"
          by blast
        then show ?thesis
        proof cases
          case 1
          then show ?thesis
            using less.prems less.hyps [of evs0] Cons Some
            by (fastforce simp: readOp_loop_poll(3) [OF go])
        next
          case 2
          show ?thesis
          proof (cases "doOp s evs0")
            case (Returned a)
            obtain s1 evs1 where a: "a = (s1, evs1)" by (cases a)
            have "length evs1 \<le> length evs0"
              using Returned a by (auto dest: doOp_rest)
            moreover have "readOp_loop s1 (maxloop_next maxloop) 0 evs1 = Returned (s', rest)"
              using less.prems Cons Some 2 Returned a
              by (simp add: readOp_loop_poll(4) [OF go])
            ultimately show ?thesis
              using less.hyps [of evs1] Cons by fastforce
          next
            case (Starved x)
            then show ?thesis
              using less.prems Cons Some 2 by (simp add: readOp_loop_poll(4) [OF go])
          next
            case (Undefined e x)
            then show ?thesis
              using less.prems Cons Some 2 by (simp add: readOp_loop_poll(4) [OF go])
          qed
        next
          case 3
          have "readOp_loop s maxloop isOp evs = readOp_loop s (maxloop_next maxloop) isOp evs0"
            using readOp_loop_poll(5) [OF go 3] Cons Some by simp
          then show ?thesis
            using less.prems less.hyps [of evs0] Cons by fastforce
        qed
      qed
    qed
  qed
qed

lemma readOp_loop_consumes:
  assumes "readOp_loop s maxloop isOp evs = Returned (s', rest)" "loops s" "maxloop \<noteq> 1"
  shows "length rest < length evs"
proof (cases evs)
  case Nil
  then show ?thesis using assms by (simp add: readOp_loop_poll(1))
next
  case (Cons e evs0)
  have go: "loops s" "maxloop \<noteq> 1" using assms by simp_all
  show ?thesis
  proof (cases e)
    case None
    then show ?thesis
      using assms(1) Cons readOp_loop_rest [of s "maxloop_next maxloop" isOp evs0 s' rest]
      by (simp add: readOp_loop_poll(2) [OF go])
  next
    case (Some res)
    consider "res = 0xA0" | "res = 0x1E" "isOp = 1" | "res \<noteq> 0xA0" "\<not> (res = 0x1E \<and> isOp = 1)"
      by blast
    then show ?thesis
    proof cases
      case 1
      then show ?thesis
        using assms(1) Cons Some readOp_loop_rest [of s "maxloop_next maxloop" 1 evs0 s' rest]
        by (simp add: readOp_loop_poll(3) [OF go])
    next
      case 2
      show ?thesis
      proof (cases "doOp s evs0")
        case (Returned a)
        obtain s1 evs1 where a: "a = (s1, evs1)" by (cases a)
        have "length evs1 \<le> length evs0"
          using Returned a by (auto dest: doOp_rest)
        moreover have "readOp_loop s1 (maxloop_next maxloop) 0 evs1 = Returned (s', rest)"
          using assms(1) Cons Some 2 Returned a
          by (simp add: readOp_loop_poll(4) [OF go])
        then have "length rest \<le> length evs1"
          by (rule readOp_loop_rest)
        ultimately show ?thesis
          using Cons by simp
      next
        case (Starved x)
        then show ?thesis
          using assms(1) Cons Some 2 by (simp add: readOp_loop_poll(4) [OF go])
      next
        case (Undefined e x)
        then show ?thesis
          using assms(1) Cons Some 2 by (simp add: readOp_loop_poll(4) [OF go])
      qed
    next
      case 3
      have "readOp_loop s maxloop isOp evs = readOp_loop s (maxloop_next maxloop) isOp evs0"
        using readOp_loop_poll(5) [OF go 3] Cons Some by simp
      then show ?thesis
        using assms(1) Cons readOp_loop_rest [of s "maxloop_next maxloop" isOp evs0 s' rest]
        by simp
    qed
  qed
qed

section \<open>The public methods\<close>

text \<open>The two bytes every announcement starts with: \<^verbatim>\<open>line >> 8\<close> and \<^verbatim>\<open>line\<close>, each
  cut to a \<^verbatim>\<open>uint8_t\<close>.\<close>

definition line_hi :: "u32 \<Rightarrow> u8" where
  "line_hi line = ucast (drop_bit 8 line)"

definition line_lo :: "u32 \<Rightarrow> u8" where
  "line_lo line = ucast line"

text \<open>\<^verbatim>\<open>_KDB::debugger\<close> (kdb.cpp, lines 23 to 30).\<close>

definition debugger :: "kdb \<Rightarrow> u32 \<Rightarrow> poll list \<Rightarrow> (kdb \<times> poll list) result" where
  "debugger s line evs =
     (let s1 = s\<lparr>readbuf := (readbuf s)[0 := line_hi line, 1 := line_lo line]\<rparr>
      in and_then (sendOp s1 (opcode KDB_DEBUGGER) 2) (\<lambda>s2.
           readOp (s2\<lparr>loops := True\<rparr>) 255 evs))"

text \<open>
  \<^verbatim>\<open>_KDB::capture\<close> (kdb.cpp, lines 32 to 51); \<open>x\<close> is the address, the
  \<^verbatim>\<open>size_t px\<close> of the source.
\<close>

definition capture :: "kdb \<Rightarrow> u32 \<Rightarrow> u32 \<Rightarrow> u8 \<Rightarrow> kdb result" where
  "capture s line x sz =
     (let s1 = s\<lparr>readbuf := (readbuf s)
                 [0 := line_hi line, 1 := line_lo line,
                  2 := ucast (drop_bit 24 x), 3 := ucast (drop_bit 16 x),
                  4 := ucast (drop_bit 8 x), 5 := ucast x,
                  6 := sz, 7 := capsize s]\<rparr>
      in if unat (capsize s1) < 32
         then (let s2 = s1\<lparr>caps := (caps s1)[unat (capsize s1) := \<lparr>slot_size = sz, slot_ptr = x\<rparr>]\<rparr>
               in and_then (sendOp s2 (opcode KDB_CAPTURE) 8) (\<lambda>s3.
                    Returned (s3\<lparr>capsize := capsize s3 + 1\<rparr>)))
         else Undefined (CapsIndex (unat (capsize s1))) s1)"

text \<open>\<^verbatim>\<open>_KDB::init\<close> (kdb.cpp, lines 53 to 65): the \<^verbatim>\<open>while (loops)\<close> loop, then the
  method.\<close>

function init_loop :: "kdb \<Rightarrow> u32 \<Rightarrow> poll list \<Rightarrow> (kdb \<times> poll list) result" where
  "init_loop s line evs =
     (if loops s
      then (let s1 = s\<lparr>readbuf := (readbuf s)[0 := line_hi line, 1 := line_lo line]\<rparr>
            in case sendOp s1 (opcode KDB_INIT) 2 of
                 Returned s2 \<Rightarrow>
                   (case readOp s2 200 evs of
                      Returned (s3, rest) \<Rightarrow> init_loop (delay s3 100) line rest
                    | Starved t \<Rightarrow> Starved t
                    | Undefined e t \<Rightarrow> Undefined e t)
               | Starved t \<Rightarrow> Starved t
               | Undefined e t \<Rightarrow> Undefined e t)
      else Returned (s, evs))"
  by pat_completeness auto
termination
proof (relation "measure (\<lambda>(s, line, evs). length evs)")
  fix s :: kdb and line :: u32 and evs :: "poll list" and s1 s2 :: kdb
    and a :: "kdb \<times> poll list" and s3 :: kdb and rest :: "poll list"
  assume "loops s"
    and "s1 = s\<lparr>readbuf := (readbuf s)[0 := line_hi line, 1 := line_lo line]\<rparr>"
    and "sendOp s1 (opcode KDB_INIT) 2 = Returned s2"
    and "readOp s2 200 evs = Returned a"
    and "(s3, rest) = a"
  then have "loops s2" and "readOp_loop s2 200 0 evs = Returned (s3, rest)"
    by (auto simp: readOp_def dest: sendOp_loops)
  then have "length rest < length evs"
    using readOp_loop_consumes [of s2 200 0 evs s3 rest] by simp
  then show "((delay s3 100, line, rest), (s, line, evs)) \<in> measure (\<lambda>(s, line, evs). length evs)"
    by simp
qed simp

declare init_loop.simps [simp del]

definition init :: "kdb \<Rightarrow> u32 \<Rightarrow> poll list \<Rightarrow> (kdb \<times> poll list) result" where
  "init s line evs = init_loop (s\<lparr>loops := True, capsize := 0\<rparr>) line evs"

text \<open>
  \<^verbatim>\<open>memcpy(readbuf + off, str, n)\<close> from a C string, given as its bytes before the
  terminating NUL.
\<close>

definition memcpy_str_to_readbuf :: "kdb \<Rightarrow> nat \<Rightarrow> u8 list \<Rightarrow> nat \<Rightarrow> kdb result" where
  "memcpy_str_to_readbuf s off str n =
     (if off + n \<le> 32
      then Returned (s\<lparr>readbuf := take off (readbuf s) @ take n str @ drop (off + n) (readbuf s)\<rparr>)
      else Undefined (ReadbufIndex 32) s)"

text \<open>
  \<^verbatim>\<open>_KDB::print(unsigned, const char*)\<close> (kdb.cpp, lines 67 to 76) and
  \<^verbatim>\<open>_KDB::println(unsigned, const char*)\<close> (lines 106 to 115).
  \<^verbatim>\<open>uint8_t len = strlen(str)\<close> keeps the low eight bits of the length.
\<close>

definition print :: "kdb \<Rightarrow> u32 \<Rightarrow> u8 list \<Rightarrow> kdb result" where
  "print s line str =
     (let len = (of_nat (length str) :: u8);
          len = (if len > 29 then 29 else len);
          s1 = s\<lparr>readbuf := (readbuf s)[0 := line_hi line, 1 := line_lo line, 2 := 0]\<rparr>
      in and_then (memcpy_str_to_readbuf s1 3 str (unat len)) (\<lambda>s2.
           sendOp s2 (opcode KDB_PRINT) (len + 3)))"

definition println :: "kdb \<Rightarrow> u32 \<Rightarrow> u8 list \<Rightarrow> kdb result" where
  "println s line str =
     (let len = (of_nat (length str) :: u8);
          len = (if len > 29 then 29 else len);
          s1 = s\<lparr>readbuf := (readbuf s)[0 := line_hi line, 1 := line_lo line, 2 := 1]\<rparr>
      in and_then (memcpy_str_to_readbuf s1 3 str (unat len)) (\<lambda>s2.
           sendOp s2 (opcode KDB_PRINT) (len + 3)))"

subsection \<open>What the loops dispatch\<close>

text \<open>
  The frames \<open>readOp\<close> hands to the \<^verbatim>\<open>switch\<close> of \<open>doOp\<close>, in order: for each
  frame that has been received in full, its operation type and the state the
  \<^verbatim>\<open>switch\<close> starts from. The function walks through the loop of \<open>readOp\<close> as
  \<open>readOp_loop\<close> does and only collects; it ends where the loop returns, is left
  polling, or leaves an array.
\<close>

function readOp_ops :: "kdb \<Rightarrow> u8 \<Rightarrow> u8 \<Rightarrow> poll list \<Rightarrow> (u8 \<times> kdb) list" where
  "readOp_ops s maxloop isOp evs =
     (if loops s
      then (let maxloop' = (if maxloop \<noteq> 255 then maxloop - 1 else maxloop)
            in if maxloop \<noteq> 255 \<and> maxloop' = 0 then []
               else (case evs of
                       [] \<Rightarrow> []
                     | None # rest \<Rightarrow> readOp_ops s maxloop' isOp rest
                     | Some res # rest \<Rightarrow>
                         if res = 0xA0 then readOp_ops s maxloop' 1 rest
                         else if res = 0x1E
                         then (if isOp = 1
                               then (case doOp_recv s rest of
                                       Returned (opType, opSize, s1, rest1) \<Rightarrow>
                                         (opType, s1) #
                                         (case doOp_switch opType s1 of
                                            Returned s2 \<Rightarrow> readOp_ops s2 maxloop' 0 rest1
                                          | Starved t \<Rightarrow> []
                                          | Undefined e t \<Rightarrow> [])
                                     | Starved t \<Rightarrow> []
                                     | Undefined e t \<Rightarrow> [])
                               else readOp_ops s maxloop' isOp rest)
                         else readOp_ops s maxloop' isOp rest))
      else [])"
  by pat_completeness auto
termination
  by (relation "measure (\<lambda>(s, maxloop, isOp, evs). length evs)")
    (auto dest: doOp_recv_rest)

declare readOp_ops.simps [simp del]






text \<open>A run of registrations, each with its line, address and size, one after the other.\<close>

fun captures :: "kdb \<Rightarrow> (u32 \<times> u32 \<times> u8) list \<Rightarrow> kdb result" where
  "captures s [] = Returned s"
| "captures s ((line, x, sz) # regs) = and_then (capture s line x sz) (\<lambda>s'. captures s' regs)"

section \<open>Reading the traces\<close>

text \<open>The bytes a poll list delivers, in order.\<close>

fun bytes_of :: "poll list \<Rightarrow> u8 list" where
  "bytes_of [] = []"
| "bytes_of (None # evs) = bytes_of evs"
| "bytes_of (Some b # evs) = b # bytes_of evs"

text \<open>The polls that follow the \<open>k\<close>-th delivered byte.\<close>

fun after_bytes :: "nat \<Rightarrow> poll list \<Rightarrow> poll list" where
  "after_bytes k [] = []"
| "after_bytes k (e # evs) =
     (if k = 0 then e # evs
      else (case e of None \<Rightarrow> after_bytes k evs | Some b \<Rightarrow> after_bytes (k - 1) evs))"

section \<open>Vocabulary of the statements\<close>

text \<open>The eight bytes \<open>capture\<close> puts at the head of the scratch buffer.\<close>

definition capture_payload :: "u32 \<Rightarrow> u32 \<Rightarrow> u8 \<Rightarrow> u8 \<Rightarrow> u8 list" where
  "capture_payload line x sz idx =
     [line_hi line, line_lo line, ucast (drop_bit 24 x), ucast (drop_bit 16 x),
      ucast (drop_bit 8 x), ucast x, sz, idx]"

text \<open>The table entry a registration makes.\<close>

definition slot_of :: "u32 \<times> u32 \<times> u8 \<Rightarrow> KDB_PtrWithSize" where
  "slot_of reg = (case reg of (line, x, sz) \<Rightarrow> \<lparr>slot_size = sz, slot_ptr = x\<rparr>)"

text \<open>The announcement of the registration with index \<open>i\<close>, as written to the serial line.\<close>

definition capture_frame :: "nat \<times> u32 \<times> u32 \<times> u8 \<Rightarrow> wire_event list" where
  "capture_frame ireg =
     (case ireg of (i, line, x, sz) \<Rightarrow>
        map Wr (frame (opcode KDB_CAPTURE) (capture_payload line x sz (of_nat i))))"

text \<open>
  The object with a single slot of \<open>sz\<close> bytes registered at address 16, and with the
  scratch buffer \<open>rb\<close>.
\<close>

definition KDB_one_slot :: "u8 \<Rightarrow> u8 list \<Rightarrow> kdb" where
  "KDB_one_slot sz rb =
     KDB_fresh\<lparr>caps := (caps KDB_fresh)[0 := \<lparr>slot_size = sz, slot_ptr = 16\<rparr>],
                capsize := 1, readbuf := rb\<rparr>"

text \<open>Whether a byte sequence holds the two sync bytes \<open>0xA0\<close>, \<open>0x1E\<close> next to each other.\<close>

fun has_sync :: "u8 list \<Rightarrow> bool" where
  "has_sync (a # b # bs) = ((a = 0xA0 \<and> b = 0x1E) \<or> has_sync (b # bs))"
| "has_sync bs = False"

text \<open>The INIT announcement for a line, as written to the serial line.\<close>

definition init_frame :: "u32 \<Rightarrow> wire_event list" where
  "init_frame line = map Wr (frame (opcode KDB_INIT) [line_hi line, line_lo line])"

section \<open>Facts about the reader, the writer and the methods\<close>

lemma after_bytes_0 [simp]: "after_bytes 0 evs = evs"
  by (cases evs) simp_all

lemma bytes_of_map_Some [simp]: "bytes_of (map Some bs @ evs) = bs @ bytes_of evs"
  by (induction bs) simp_all

lemma after_bytes_map_Some [simp]: "after_bytes (length bs) (map Some bs @ evs) = evs"
  by (induction bs) simp_all

lemma bytes_of_after_bytes: "bytes_of (after_bytes k evs) = drop k (bytes_of evs)"
proof (induction evs arbitrary: k)
  case Nil
  then show ?case by simp
next
  case (Cons e evs)
  show ?case
  proof (cases k)
    case 0
    then show ?thesis by simp
  next
    case (Suc j)
    then show ?thesis using Cons by (cases e) simp_all
  qed
qed

lemma kdb_readbuf_same [simp]: "s\<lparr>readbuf := readbuf s\<rparr> = (s::kdb)"
  by simp

lemma readSize_loop_inside:
  assumes "pos \<le> unat sz" "unat sz < 32" "length (readbuf s) = 32"
  shows "readSize_loop s sz pos evs =
     (if Suc (unat sz) - pos \<le> length (bytes_of evs)
      then Returned
             (s\<lparr>readbuf := take pos (readbuf s) @ take (Suc (unat sz) - pos) (bytes_of evs)
                    @ drop (Suc (unat sz)) (readbuf s)\<rparr>,
              after_bytes (Suc (unat sz) - pos) evs)
      else Starved
             (s\<lparr>readbuf := take pos (readbuf s) @ bytes_of evs
                    @ drop (pos + length (bytes_of evs)) (readbuf s)\<rparr>))"
  using assms
proof (induction s sz pos evs rule: readSize_loop.induct)
  case (1 s sz pos)
  then show ?case by simp
next
  case (2 s sz pos evs)
  then show ?case by (simp add: Suc_diff_le)
next
  case (3 s sz pos b evs)
  have p32: "pos < 32" using "3.prems" by simp
  let ?s' = "s\<lparr>readbuf := (readbuf s)[pos := b]\<rparr>"
  have upd: "(readbuf s)[pos := b] = take pos (readbuf s) @ b # drop (Suc pos) (readbuf s)"
    using p32 "3.prems" by (simp add: upd_conv_take_nth_drop)
  show ?case
  proof (cases "pos = unat sz")
    case True
    then show ?thesis using p32 upd by (simp add: Let_def)
  next
    case False
    then have lt: "pos < unat sz" using "3.prems" by simp
    have ih: "readSize_loop ?s' sz (Suc pos) evs =
     (if Suc (unat sz) - Suc pos \<le> length (bytes_of evs)
      then Returned
             (?s'\<lparr>readbuf := take (Suc pos) (readbuf ?s') @ take (Suc (unat sz) - Suc pos) (bytes_of evs)
                    @ drop (Suc (unat sz)) (readbuf ?s')\<rparr>,
              after_bytes (Suc (unat sz) - Suc pos) evs)
      else Starved
             (?s'\<lparr>readbuf := take (Suc pos) (readbuf ?s') @ bytes_of evs
                    @ drop (Suc pos + length (bytes_of evs)) (readbuf ?s')\<rparr>))"
      using "3.IH" [OF p32 refl False] lt "3.prems" by simp
    have k: "Suc (unat sz) - pos = Suc (unat sz - pos)" using lt by simp
    have t: "take (Suc pos) ((readbuf s)[pos := b]) = take pos (readbuf s) @ [b]"
      using p32 "3.prems" by (simp add: upd)
    have d: "\<And>j. Suc pos \<le> j \<Longrightarrow> drop j ((readbuf s)[pos := b]) = drop j (readbuf s)"
      by simp
    show ?thesis
      using p32 False lt ih t d [of "Suc (unat sz)"] d [of "Suc pos + length (bytes_of evs)"]
      by (simp add: Let_def k)
  qed
qed


lemma readSize_loop_outside:
  assumes "pos \<le> 32" "32 \<le> unat sz" "length (readbuf s) = 32"
  shows "readSize_loop s sz pos evs =
     (if 33 - pos \<le> length (bytes_of evs)
      then Undefined (ReadbufIndex 32)
             (s\<lparr>readbuf := take pos (readbuf s) @ take (32 - pos) (bytes_of evs)\<rparr>)
      else Starved
             (s\<lparr>readbuf := take pos (readbuf s) @ bytes_of evs
                    @ drop (pos + length (bytes_of evs)) (readbuf s)\<rparr>))"
  using assms
proof (induction s sz pos evs rule: readSize_loop.induct)
  case (1 s sz pos)
  then show ?case by simp
next
  case (2 s sz pos evs)
  then show ?case by simp
next
  case (3 s sz pos b evs)
  show ?case
  proof (cases "pos < 32")
    case False
    then have "pos = 32" using "3.prems" by simp
    then show ?thesis using "3.prems" by simp
  next
    case p32: True
    let ?s' = "s\<lparr>readbuf := (readbuf s)[pos := b]\<rparr>"
    have ne: "pos \<noteq> unat sz" using p32 "3.prems" by simp
    have upd: "(readbuf s)[pos := b] = take pos (readbuf s) @ b # drop (Suc pos) (readbuf s)"
      using p32 "3.prems" by (simp add: upd_conv_take_nth_drop)
    have ih: "readSize_loop ?s' sz (Suc pos) evs =
     (if 33 - Suc pos \<le> length (bytes_of evs)
      then Undefined (ReadbufIndex 32)
             (?s'\<lparr>readbuf := take (Suc pos) (readbuf ?s') @ take (32 - Suc pos) (bytes_of evs)\<rparr>)
      else Starved
             (?s'\<lparr>readbuf := take (Suc pos) (readbuf ?s') @ bytes_of evs
                    @ drop (Suc pos + length (bytes_of evs)) (readbuf ?s')\<rparr>))"
      using "3.IH" [OF p32 refl ne] p32 "3.prems" by simp
    have t: "take (Suc pos) ((readbuf s)[pos := b]) = take pos (readbuf s) @ [b]"
      using p32 "3.prems" by (simp add: upd)
    have d: "\<And>j. Suc pos \<le> j \<Longrightarrow> drop j ((readbuf s)[pos := b]) = drop j (readbuf s)"
      by simp
    have k: "32 - pos = Suc (32 - Suc pos)" "33 - pos = Suc (33 - Suc pos)" using p32 by simp_all
    show ?thesis
      using p32 ne ih t d [of "Suc pos + length (bytes_of evs)"]
      by (simp add: Let_def k)
  qed
qed

lemma readSize_inside:
  assumes "unat n \<le> 32" "length (readbuf s) = 32"
  shows "readSize s n evs =
     (if unat n \<le> length (bytes_of evs)
      then Returned (s\<lparr>readbuf := take (unat n) (bytes_of evs) @ drop (unat n) (readbuf s)\<rparr>,
                     after_bytes (unat n) evs)
      else Starved (s\<lparr>readbuf := bytes_of evs @ drop (length (bytes_of evs)) (readbuf s)\<rparr>))"
proof (cases "n = 0")
  case True
  then show ?thesis by (simp add: readSize_def)
next
  case False
  then have m: "unat (n - 1) = unat n - 1" and pos: "0 < unat n"
    by (simp_all add: unat_minus_one unat_gt_0)
  then have "unat (n - 1) < 32" "Suc (unat (n - 1)) = unat n"
    using assms by simp_all
  then show ?thesis
    using False assms readSize_loop_inside [of 0 "n - 1" s evs]
    by (simp add: readSize_def)
qed

lemma readSize_outside:
  assumes "32 < unat n" "length (readbuf s) = 32"
  shows "readSize s n evs =
     (if 33 \<le> length (bytes_of evs)
      then Undefined (ReadbufIndex 32) (s\<lparr>readbuf := take 32 (bytes_of evs)\<rparr>)
      else Starved (s\<lparr>readbuf := bytes_of evs @ drop (length (bytes_of evs)) (readbuf s)\<rparr>))"
proof -
  have ne: "n \<noteq> 0" using assms by auto
  then have m: "unat (n - 1) = unat n - 1"
    by (simp add: unat_minus_one)
  then have "32 \<le> unat (n - 1)"
    using assms by simp
  then show ?thesis
    using ne assms readSize_loop_outside [of 0 "n - 1" s evs]
    by (simp add: readSize_def)
qed


lemma after_bytes_after_bytes: "after_bytes j (after_bytes k evs) = after_bytes (k + j) evs"
proof (induction evs arbitrary: k)
  case Nil
  then show ?case by simp
next
  case (Cons e evs)
  show ?case
  proof (cases k)
    case 0
    then show ?thesis by simp
  next
    case (Suc i)
    then show ?thesis using Cons by (cases e) simp_all
  qed
qed

lemma doOp_recv_inside:
  assumes rb: "length (readbuf s) = 32"
    and hdr: "2 \<le> length (bytes_of evs)"
    and n: "unat (bytes_of evs ! 1) \<le> 32"
  shows "doOp_recv s evs =
     (if 2 + unat (bytes_of evs ! 1) \<le> length (bytes_of evs)
      then Returned
             (bytes_of evs ! 0, bytes_of evs ! 1,
              s\<lparr>readbuf := take (unat (bytes_of evs ! 1)) (drop 2 (bytes_of evs))
                     @ drop (unat (bytes_of evs ! 1))
                         (bytes_of evs ! 0 # bytes_of evs ! 1 # drop 2 (readbuf s))\<rparr>,
              after_bytes (2 + unat (bytes_of evs ! 1)) evs)
      else Starved
             (s\<lparr>readbuf := drop 2 (bytes_of evs)
                     @ drop (length (bytes_of evs) - 2)
                         (bytes_of evs ! 0 # bytes_of evs ! 1 # drop 2 (readbuf s))\<rparr>))"
proof -
  define bs where "bs = bytes_of evs"
  obtain a b r where bs: "bs = a # b # r"
    using hdr unfolding bs_def [symmetric] by (cases bs; cases "tl bs") auto
  let ?s1 = "s\<lparr>readbuf := a # b # drop 2 (readbuf s)\<rparr>"
  have r1: "readSize s 2 evs = Returned (?s1, after_bytes 2 evs)"
    using readSize_inside [of 2 s evs] rb bs by (simp add: bs_def [symmetric])
  have b1: "bytes_of (after_bytes 2 evs) = r"
    using bs by (simp add: bytes_of_after_bytes bs_def [symmetric])
  have rb1: "length (readbuf ?s1) = 32" using rb by simp
  have nb: "unat b \<le> 32" using n bs by (simp add: bs_def [symmetric])
  have r2: "readSize ?s1 b (after_bytes 2 evs) =
     (if unat b \<le> length r
      then Returned (?s1\<lparr>readbuf := take (unat b) r @ drop (unat b) (readbuf ?s1)\<rparr>,
                     after_bytes (unat b) (after_bytes 2 evs))
      else Starved (?s1\<lparr>readbuf := r @ drop (length r) (readbuf ?s1)\<rparr>))"
    using readSize_inside [OF nb rb1, of "after_bytes 2 evs"] by (simp only: b1)
  show ?thesis
    using r1 r2 bs
    by (simp add: doOp_recv_def Let_def bs_def [symmetric] after_bytes_after_bytes)
qed


lemma KDB_fresh_fields [simp]:
  "caps KDB_fresh = replicate 32 \<lparr>slot_size = 0, slot_ptr = 0\<rparr>"
  "capsize KDB_fresh = 0"
  "readbuf KDB_fresh = replicate 32 0"
  "loops KDB_fresh = False"
  "memory KDB_fresh = (\<lambda>a. 0)"
  "pin_level KDB_fresh = (\<lambda>p. 0)"
  "serial_out KDB_fresh = []"
  by (simp_all add: KDB_fresh_def KDB_new_def)

lemma kdb_ok_fresh [simp]: "kdb_ok KDB_fresh"
  by (simp add: kdb_ok_def)

lemma length8_cases:
  assumes "length ys = 8"
  obtains y0 y1 y2 y3 y4 y5 y6 y7 where "ys = [y0, y1, y2, y3, y4, y5, y6, y7]"
  using assms by (auto simp: length_Suc_conv numeral_eq_Suc)

lemma update8:
  assumes "8 \<le> length xs"
  shows "xs[0 := a, 1 := b, 2 := c, 3 := d, 4 := e, 5 := f, 6 := g, 7 := h] =
         [a, b, c, d, e, f, g, h] @ drop 8 xs"
proof -
  define ys where "ys = take 8 xs"
  define zs where "zs = drop 8 xs"
  have xs: "xs = ys @ zs" by (simp add: ys_def zs_def)
  have "length ys = 8" using assms by (simp add: ys_def)
  then obtain y0 y1 y2 y3 y4 y5 y6 y7 where ys: "ys = [y0, y1, y2, y3, y4, y5, y6, y7]"
    by (rule length8_cases)
  have "(ys @ zs)[0 := a, 1 := b, 2 := c, 3 := d, 4 := e, 5 := f, 6 := g, 7 := h] =
         [a, b, c, d, e, f, g, h] @ zs"
    by (simp add: ys numeral_eq_Suc)
  then show ?thesis
    unfolding zs_def [symmetric] xs [symmetric] .
qed

lemma capture_inside:
  assumes "kdb_ok s" "unat (capsize s) < 32"
  shows "capture s line x sz =
     Returned (s\<lparr>caps := (caps s)[unat (capsize s) := \<lparr>slot_size = sz, slot_ptr = x\<rparr>],
                 capsize := capsize s + 1,
                 readbuf := capture_payload line x sz (capsize s) @ drop 8 (readbuf s),
                 serial_out := serial_out s @
                   map Wr (frame (opcode KDB_CAPTURE) (capture_payload line x sz (capsize s)))\<rparr>)"
proof -
  have rb: "length (readbuf s) = 32" using assms by (simp add: kdb_ok_def)
  let ?rb = "capture_payload line x sz (capsize s) @ drop 8 (readbuf s)"
  have u: "(readbuf s)[0 := line_hi line, 1 := line_lo line,
                  2 := ucast (drop_bit 24 x), 3 := ucast (drop_bit 16 x),
                  4 := ucast (drop_bit 8 x), 5 := ucast x,
                  6 := sz, 7 := capsize s] = ?rb"
    using rb by (simp only: capture_payload_def update8)
  let ?s2 = "s\<lparr>readbuf := ?rb,
       caps := (caps s)[unat (capsize s) := \<lparr>slot_size = sz, slot_ptr = x\<rparr>]\<rparr>"
  have l: "length (readbuf ?s2) = 32" using rb by (simp add: capture_payload_def)
  have t: "take 8 ?rb = capture_payload line x sz (capsize s)"
    by (simp add: capture_payload_def)
  have "sendOp ?s2 (opcode KDB_CAPTURE) 8 =
     Returned (?s2\<lparr>serial_out := serial_out ?s2 @
        map Wr (frame (opcode KDB_CAPTURE) (take (unat (8::u8)) (readbuf ?s2)))\<rparr>)"
    by (rule sendOp_inside) (use l in simp_all)
  then show ?thesis
    using assms(2) u t by (simp add: capture_def Let_def)
qed


lemma captures_run:
  assumes "kdb_ok s" "unat (capsize s) + length regs \<le> 32"
  shows "\<exists>s'. captures s regs = Returned s' \<and> kdb_ok s'
      \<and> unat (capsize s') = unat (capsize s) + length regs
      \<and> caps s' = take (unat (capsize s)) (caps s) @ map slot_of regs
                     @ drop (unat (capsize s) + length regs) (caps s)
      \<and> serial_out s' = serial_out s @ concat (map capture_frame (enumerate (unat (capsize s)) regs))
      \<and> loops s' = loops s \<and> memory s' = memory s \<and> pin_level s' = pin_level s"
  using assms
proof (induction regs arbitrary: s)
  case Nil
  then show ?case by simp
next
  case (Cons reg regs)
  obtain line x sz where reg: "reg = (line, x, sz)" by (cases reg)
  let ?k = "unat (capsize s)"
  have k: "?k < 32" using Cons.prems by simp
  let ?s1 = "s\<lparr>caps := (caps s)[?k := \<lparr>slot_size = sz, slot_ptr = x\<rparr>],
                 capsize := capsize s + 1,
                 readbuf := capture_payload line x sz (capsize s) @ drop 8 (readbuf s),
                 serial_out := serial_out s @
                   map Wr (frame (opcode KDB_CAPTURE) (capture_payload line x sz (capsize s)))\<rparr>"
  have c1: "capture s line x sz = Returned ?s1"
    using capture_inside [OF Cons.prems(1) k] .
  have ok1: "kdb_ok ?s1"
    using Cons.prems(1) by (simp add: kdb_ok_def capture_payload_def)
  have k1: "unat (capsize ?s1) = Suc ?k"
    using k by (simp add: unat_word_ariths)
  have b1: "unat (capsize ?s1) + length regs \<le> 32"
    using Cons.prems(2) k1 by simp
  obtain s' where s': "captures ?s1 regs = Returned s'" "kdb_ok s'"
      "unat (capsize s') = unat (capsize ?s1) + length regs"
      "caps s' = take (unat (capsize ?s1)) (caps ?s1) @ map slot_of regs
                     @ drop (unat (capsize ?s1) + length regs) (caps ?s1)"
      "serial_out s' = serial_out ?s1 @ concat (map capture_frame (enumerate (unat (capsize ?s1)) regs))"
      "loops s' = loops ?s1" "memory s' = memory ?s1" "pin_level s' = pin_level ?s1"
    using Cons.IH [OF ok1 b1] by blast
  have lc: "length (caps s) = 32" using Cons.prems(1) by (simp add: kdb_ok_def)
  have caps: "caps s' = take ?k (caps s) @ map slot_of (reg # regs)
                     @ drop (?k + length (reg # regs)) (caps s)"
    using s'(4) k lc unfolding k1
    by (simp add: reg slot_of_def take_Suc_conv_app_nth)
  have idx: "(of_nat ?k :: u8) = capsize s" by simp
  have out: "serial_out s' = serial_out s @ concat (map capture_frame (enumerate ?k (reg # regs)))"
    using s'(5) unfolding k1 by (simp add: reg capture_frame_def idx)
  show ?case
    using c1 s'(1,2,3,6,7,8) caps out k1 by (simp add: reg)
qed


lemma last_capture_frame: "last (capture_frame (i, line, x, sz)) = Wr (of_nat i)"
  by (simp add: capture_frame_def frame_def capture_payload_def)

lemma last_capture_frames:
  "map (\<lambda>ireg. last (capture_frame ireg)) (enumerate k regs) =
   map (\<lambda>i. Wr (of_nat i)) [k..<k + length regs]"
proof (induction regs arbitrary: k)
  case Nil
  then show ?case by simp
next
  case (Cons reg regs)
  obtain line x sz where "reg = (line, x, sz)" by (cases reg)
  then show ?case
    using Cons [of "Suc k"] by (simp add: last_capture_frame upt_conv_Cons del: upt_Suc)
qed

lemma distinct_u8_indices:
  assumes "n \<le> 256"
  shows "distinct (map (of_nat :: nat \<Rightarrow> u8) [0..<n])"
proof -
  have "inj_on (of_nat :: nat \<Rightarrow> u8) {0..<n}"
  proof (rule inj_onI)
    fix i j assume "i \<in> {0..<n}" "j \<in> {0..<n}" and eq: "(of_nat i :: u8) = of_nat j"
    then have lt: "i < 256" "j < 256" using assms by auto
    have "unat (of_nat i :: u8) = i mod 256" "unat (of_nat j :: u8) = j mod 256"
      by (simp_all add: unat_of_nat)
    then have "i mod 256 = j mod 256" using eq by simp
    then show "i = j" using lt by simp
  qed
  then show ?thesis by (simp add: distinct_map)
qed

lemma opcode_simps:
  "opcode KDB_RETURN = 0" "opcode KDB_READ_MEM = 1" "opcode KDB_WRITE_MEM = 2"
  "opcode KDB_READ_CAP = 3" "opcode KDB_WRITE_CAP = 4" "opcode KDB_READ_PIN = 5"
  "opcode KDB_WRITE_PIN = 6" "opcode KDB_INIT = 7" "opcode KDB_DEBUGGER = 8"
  "opcode KDB_CAPTURE = 9" "opcode KDB_READ_MEM_RES = 10" "opcode KDB_READ_CAP_RES = 11"
  "opcode KDB_READ_PIN_RES = 12" "opcode KDB_PRINT = 13"
  by (simp_all add: opcode_def KDB_OpType_enumerators_def)

lemma length_mem_read [simp]: "length (mem_read m a n) = n"
  by (simp add: mem_read_def)

lemma mem_write_other:
  "(\<And>i. i < length bs \<Longrightarrow> b \<noteq> a + of_nat i) \<Longrightarrow> mem_write m a bs b = m b"
proof (induction bs arbitrary: m a)
  case Nil
  then show ?case by simp
next
  case (Cons c bs)
  have ne: "b \<noteq> a" using Cons.prems [of 0] by simp
  have "mem_write (m(a := c)) (a + 1) bs b = (m(a := c)) b"
  proof (rule Cons.IH)
    fix i assume "i < length bs"
    then show "b \<noteq> a + 1 + of_nat i"
      using Cons.prems [of "Suc i"] by (simp add: add.assoc)
  qed
  then show ?case using ne by simp
qed

lemma u32_of_nat_neq_0:
  assumes "0 < k" "k < 2 ^ 32"
  shows "(of_nat k :: u32) \<noteq> 0"
proof
  assume "(of_nat k :: u32) = 0"
  then have "unat (of_nat k :: u32) = 0" by simp
  moreover have "unat (of_nat k :: u32) = k mod 2 ^ 32" by (simp add: unat_of_nat)
  ultimately show False using assms by simp
qed

lemma mem_write_nth:
  assumes "length bs \<le> 2 ^ 32" "i < length bs"
  shows "mem_write m a bs (a + of_nat i) = bs ! i"
  using assms
proof (induction bs arbitrary: m a i)
  case Nil
  then show ?case by simp
next
  case (Cons c bs)
  show ?case
  proof (cases i)
    case 0
    have "\<And>j. j < length bs \<Longrightarrow> a \<noteq> (a + 1) + of_nat j"
    proof
      fix j assume j: "j < length bs" and eq: "a = (a + 1) + of_nat j"
      have "(of_nat (Suc j) :: u32) = 0"
        using eq by (simp add: add.assoc)
      moreover have "(of_nat (Suc j) :: u32) \<noteq> 0"
        using j Cons.prems(1) by (intro u32_of_nat_neq_0) simp_all
      ultimately show False by simp
    qed
    then have "mem_write (m(a := c)) (a + 1) bs a = (m(a := c)) a"
      by (rule mem_write_other)
    then show ?thesis using 0 by simp
  next
    case (Suc j)
    then have "mem_write (m(a := c)) (a + 1) bs ((a + 1) + of_nat j) = bs ! j"
      using Cons.prems by (intro Cons.IH) simp_all
    then show ?thesis using Suc by (simp add: add.assoc)
  qed
qed

lemma mem_read_mem_write:
  assumes "length bs \<le> 2 ^ 32"
  shows "mem_read (mem_write m a bs) a (length bs) = bs"
  by (rule nth_equalityI) (simp_all add: mem_read_def mem_write_nth [OF assms])

lemma memcpy_to_readbuf_no_caps_fault:
  "memcpy_to_readbuf s src n \<noteq> Undefined (CapsIndex k) t"
  by (simp add: memcpy_to_readbuf_def)

lemma memcpy_from_readbuf_no_caps_fault:
  "memcpy_from_readbuf s dst off n \<noteq> Undefined (CapsIndex k) t"
  by (simp add: memcpy_from_readbuf_def)

lemma sendOp_no_caps_fault: "sendOp s opType opSize \<noteq> Undefined (CapsIndex k) t"
  by (cases "unat opSize \<le> 32") (simp_all add: sendOp_def sendOp_loop_inside sendOp_loop_outside)

lemma read_cap_inside:
  assumes "kdb_ok s" "unat (readbuf s ! 0) < 32"
    and "unat (slot_size (caps s ! unat (readbuf s ! 0))) \<le> 32"
  shows "doOp_switch (opcode KDB_READ_CAP) s =
     Returned (s\<lparr>readbuf :=
                   mem_read (memory s) (slot_ptr (caps s ! unat (readbuf s ! 0)))
                     (unat (slot_size (caps s ! unat (readbuf s ! 0))))
                   @ drop (unat (slot_size (caps s ! unat (readbuf s ! 0)))) (readbuf s),
                 serial_out := serial_out s @
                   map Wr (frame (opcode KDB_READ_CAP_RES)
                     (mem_read (memory s) (slot_ptr (caps s ! unat (readbuf s ! 0)))
                        (unat (slot_size (caps s ! unat (readbuf s ! 0))))))\<rparr>)"
proof -
  define p where "p = caps s ! unat (readbuf s ! 0)"
  define n where "n = unat (slot_size p)"
  have n: "n \<le> 32" using assms(3) by (simp add: n_def p_def)
  have rb: "length (readbuf s) = 32" using assms(1) by (simp add: kdb_ok_def)
  let ?s1 = "s\<lparr>readbuf := mem_read (memory s) (slot_ptr p) n @ drop n (readbuf s)\<rparr>"
  have m: "memcpy_to_readbuf s (slot_ptr p) n = Returned ?s1"
    using n by (simp add: memcpy_to_readbuf_def)
  have l: "length (readbuf ?s1) = 32" using rb n by simp
  have "sendOp ?s1 (opcode KDB_READ_CAP_RES) (slot_size p) =
     Returned (?s1\<lparr>serial_out := serial_out ?s1 @
        map Wr (frame (opcode KDB_READ_CAP_RES) (take (unat (slot_size p)) (readbuf ?s1)))\<rparr>)"
    using n l by (intro sendOp_inside) (simp_all add: n_def)
  then show ?thesis
    using m assms(2)
    by (simp add: doOp_switch_def opcode_simps Let_def p_def [symmetric] n_def [symmetric])
qed

lemma write_cap_inside:
  assumes "unat (readbuf s ! 0) < 32"
    and "unat (slot_size (caps s ! unat (readbuf s ! 0))) \<le> 31"
  shows "doOp_switch (opcode KDB_WRITE_CAP) s =
     Returned (s\<lparr>memory :=
                   mem_write (memory s) (slot_ptr (caps s ! unat (readbuf s ! 0)))
                     (take (unat (slot_size (caps s ! unat (readbuf s ! 0))))
                        (drop 1 (readbuf s)))\<rparr>)"
  using assms by (simp add: doOp_switch_def opcode_simps Let_def memcpy_from_readbuf_def)


lemma and_then_no_caps_fault:
  assumes "r \<noteq> Undefined (CapsIndex k) t" "\<And>x. f x \<noteq> Undefined (CapsIndex k) t"
  shows "and_then r f \<noteq> Undefined (CapsIndex k) t"
  using assms by (cases r) auto

lemma kdb_ok_one_slot [simp]: "kdb_ok (KDB_one_slot sz rb) \<longleftrightarrow> length rb = 32"
  by (simp add: KDB_one_slot_def kdb_ok_def)

lemma KDB_one_slot_fields [simp]:
  "caps (KDB_one_slot sz rb) ! 0 = \<lparr>slot_size = sz, slot_ptr = 16\<rparr>"
  "readbuf (KDB_one_slot sz rb) = rb"
  "memory (KDB_one_slot sz rb) = (\<lambda>a. 0)"
  "serial_out (KDB_one_slot sz rb) = []"
  "(KDB_one_slot sz rb)\<lparr>readbuf := rb'\<rparr> = KDB_one_slot sz rb'"
  by (simp_all add: KDB_one_slot_def)

lemma maxloop_next_255 [simp]: "maxloop_next 255 = 255"
  by (simp add: maxloop_next_def)

lemma maxloop_next_neq_1: "maxloop \<noteq> 2 \<Longrightarrow> maxloop_next maxloop \<noteq> 1"
  by (auto simp: maxloop_next_def)

lemma readOp_sync:
  assumes "loops s" "maxloop \<noteq> 1" "maxloop \<noteq> 2"
  shows "readOp s maxloop (Some 0xA0 # Some 0x1E # evs) =
     (case doOp s evs of
        Returned (s', rest) \<Rightarrow> readOp_loop s' (maxloop_next (maxloop_next maxloop)) 0 rest
      | Starved t \<Rightarrow> Starved t
      | Undefined e t \<Rightarrow> Undefined e t)"
proof -
  have "readOp s maxloop (Some 0xA0 # Some 0x1E # evs) =
      readOp_loop s (maxloop_next maxloop) 1 (Some 0x1E # evs)"
    using assms by (simp add: readOp_def readOp_loop_poll(3))
  also have "\<dots> = (case doOp s evs of
        Returned (s', rest) \<Rightarrow> readOp_loop s' (maxloop_next (maxloop_next maxloop)) 0 rest
      | Starved t \<Rightarrow> Starved t
      | Undefined e t \<Rightarrow> Undefined e t)"
    using assms(1) maxloop_next_neq_1 [OF assms(3)] by (rule readOp_loop_poll(4))
  finally show ?thesis .
qed

lemma doOp_frame:
  assumes "length (readbuf s) = 32" "2 \<le> length (bytes_of evs)"
    and "unat (bytes_of evs ! 1) \<le> 32" "2 + unat (bytes_of evs ! 1) \<le> length (bytes_of evs)"
  shows "doOp s evs =
     and_then
       (doOp_switch (bytes_of evs ! 0)
          (s\<lparr>readbuf := take (unat (bytes_of evs ! 1)) (drop 2 (bytes_of evs))
                 @ drop (unat (bytes_of evs ! 1))
                     (bytes_of evs ! 0 # bytes_of evs ! 1 # drop 2 (readbuf s))\<rparr>))
       (\<lambda>s'. Returned (s', after_bytes (2 + unat (bytes_of evs ! 1)) evs))"
  using assms by (simp add: doOp_def doOp_recv_inside)






lemma update2:
  assumes "2 \<le> length xs"
  shows "xs[0 := a, 1 := b] = a # b # drop 2 xs"
proof -
  obtain x0 x1 r where "xs = x0 # x1 # r"
    using assms by (cases xs; cases "tl xs") auto
  then show ?thesis by simp
qed

lemma init_announce:
  assumes "kdb_ok s"
  shows "sendOp (s\<lparr>readbuf := (readbuf s)[0 := line_hi line, 1 := line_lo line]\<rparr>)
           (opcode KDB_INIT) 2 =
         Returned (s\<lparr>readbuf := line_hi line # line_lo line # drop 2 (readbuf s),
                     serial_out := serial_out s @ init_frame line\<rparr>)"
proof -
  have rb: "length (readbuf s) = 32" using assms by (simp add: kdb_ok_def)
  have u: "(readbuf s)[0 := line_hi line, 1 := line_lo line] =
      line_hi line # line_lo line # drop 2 (readbuf s)"
    using rb by (intro update2) simp
  let ?s1 = "s\<lparr>readbuf := line_hi line # line_lo line # drop 2 (readbuf s)\<rparr>"
  have "sendOp ?s1 (opcode KDB_INIT) 2 =
     Returned (?s1\<lparr>serial_out := serial_out ?s1 @
        map Wr (frame (opcode KDB_INIT) (take (unat (2::u8)) (readbuf ?s1)))\<rparr>)"
    using rb by (intro sendOp_inside) simp_all
  then show ?thesis
    unfolding u by (simp add: init_frame_def)
qed


lemma readOp_ops_budget: "readOp_ops s 1 isOp evs = []"
  by (simp add: readOp_ops.simps)











lemma print_len:
  fixes str :: "u8 list"
  defines "len \<equiv> (of_nat (length str) :: u8)"
  shows "unat (if len > 29 then 29 else len) = min 29 (length str mod 256)"
  by (auto simp: len_def word_less_nat_alt unat_of_nat)

lemma print_len3:
  fixes len :: u8
  assumes "unat len \<le> 29"
  shows "unat (len + 3) = unat len + 3"
  using assms by (simp add: unat_word_ariths)

lemma take3_update:
  assumes "3 \<le> length xs"
  shows "take 3 (xs[0 := a, Suc 0 := b, 2 := c]) = [a, b, c]"
proof -
  obtain x0 x1 x2 r where "xs = x0 # x1 # x2 # r"
    using assms by (cases xs; cases "tl xs"; cases "tl (tl xs)") auto
  then show ?thesis by (simp add: numeral_2_eq_2)
qed

lemma line_bytes: "256 * unat (line_hi line) + unat (line_lo line) = unat line mod 65536"
proof -
  have hi: "unat (line_hi line) = (unat line div 256) mod 256"
    by (simp add: line_hi_def unsigned_ucast_eq unat_drop_bit_eq take_bit_eq_mod drop_bit_eq_div unat_div)
  have lo: "unat (line_lo line) = unat line mod 256"
    by (simp add: line_lo_def unsigned_ucast_eq take_bit_eq_mod)
  have "unat line mod (256 * 256) = 256 * (unat line div 256 mod 256) + unat line mod 256"
    by (rule mod_mult2_eq)
  then show ?thesis using hi lo by simp
qed


lemma print_core:
  assumes ok: "kdb_ok s" and n: "n = min 29 (length str mod 256)"
    and len: "unat len = n"
  shows "and_then (memcpy_str_to_readbuf (s\<lparr>readbuf := (readbuf s)[0 := a, 1 := b, 2 := k]\<rparr>) 3 str (unat len))
           (\<lambda>s2. sendOp s2 opType (len + 3)) =
         Returned (s\<lparr>readbuf := ([a, b, k] @ take n str) @ drop (3 + n) (readbuf s),
                     serial_out := serial_out s @ map Wr (frame opType ([a, b, k] @ take n str))\<rparr>)"
proof -
  have n29: "n \<le> 29" and nlen: "n \<le> length str"
    using n by (auto intro: order_trans [OF min.cobounded2 mod_less_eq_dividend])
  have rb: "length (readbuf s) = 32" using ok by (simp add: kdb_ok_def)
  let ?rb = "(readbuf s)[0 := a, 1 := b, 2 := k]"
  let ?s1 = "s\<lparr>readbuf := ?rb\<rparr>"
  let ?new = "([a, b, k] @ take n str) @ drop (3 + n) (readbuf s)"
  have t3: "take 3 ?rb = [a, b, k]"
    using take3_update [of "readbuf s" a b k] rb by simp
  have "memcpy_str_to_readbuf ?s1 3 str (unat len) = Returned (?s1\<lparr>readbuf := ?new\<rparr>)"
    using n29 len t3 by (simp add: memcpy_str_to_readbuf_def)
  moreover have l3: "unat (len + 3) = n + 3"
    using print_len3 [of len] len n29 by simp
  moreover have "length ?new = 32"
    using rb n29 nlen by simp
  moreover have "take (n + 3) ?new = [a, b, k] @ take n str"
    using nlen by (simp add: numeral_3_eq_3)
  ultimately show ?thesis
    using n29 by (simp add: sendOp_inside)
qed

lemma read_mem_inside:
  assumes "kdb_ok s" "unat (readbuf s ! 4) \<le> 32"
  shows "doOp_switch (opcode KDB_READ_MEM) s =
     Returned (s\<lparr>readbuf :=
                   mem_read (memory s) (addr_of_readbuf s) (unat (readbuf s ! 4))
                   @ drop (unat (readbuf s ! 4)) (readbuf s),
                 serial_out := serial_out s @
                   map Wr (frame (opcode KDB_READ_MEM_RES)
                     (mem_read (memory s) (addr_of_readbuf s) (unat (readbuf s ! 4))))\<rparr>)"
proof -
  define n where "n = unat (readbuf s ! 4)"
  have n: "n \<le> 32" using assms(2) by (simp add: n_def)
  have rb: "length (readbuf s) = 32" using assms(1) by (simp add: kdb_ok_def)
  let ?s1 = "s\<lparr>readbuf := mem_read (memory s) (addr_of_readbuf s) n @ drop n (readbuf s)\<rparr>"
  have m: "memcpy_to_readbuf s (addr_of_readbuf s) n = Returned ?s1"
    using n by (simp add: memcpy_to_readbuf_def)
  have l: "length (readbuf ?s1) = 32" using rb n by simp
  have "sendOp ?s1 (opcode KDB_READ_MEM_RES) (readbuf s ! 4) =
     Returned (?s1\<lparr>serial_out := serial_out ?s1 @
        map Wr (frame (opcode KDB_READ_MEM_RES) (take (unat (readbuf s ! 4)) (readbuf ?s1)))\<rparr>)"
    using n l by (intro sendOp_inside) (simp_all add: n_def)
  then show ?thesis
    using m by (simp add: doOp_switch_def opcode_simps Let_def n_def [symmetric])
qed

lemma read_pin_inside:
  assumes "kdb_ok s"
  shows "doOp_switch (opcode KDB_READ_PIN) s =
     Returned (s\<lparr>readbuf := digitalRead s (readbuf s ! 0) # drop 1 (readbuf s),
                 serial_out := serial_out s @
                   map Wr (frame (opcode KDB_READ_PIN_RES) [digitalRead s (readbuf s ! 0)])\<rparr>)"
proof -
  have rb: "length (readbuf s) = 32" using assms(1) by (simp add: kdb_ok_def)
  then obtain x r where xr: "readbuf s = x # r" by (cases "readbuf s") auto
  let ?s1 = "s\<lparr>readbuf := (readbuf s)[0 := digitalRead s (readbuf s ! 0)]\<rparr>"
  have l: "length (readbuf ?s1) = 32" using rb by simp
  have "sendOp ?s1 (opcode KDB_READ_PIN_RES) 1 =
     Returned (?s1\<lparr>serial_out := serial_out ?s1 @
        map Wr (frame (opcode KDB_READ_PIN_RES) (take (unat (1::u8)) (readbuf ?s1)))\<rparr>)"
    using l by (intro sendOp_inside) simp_all
  then show ?thesis
    using xr by (simp add: doOp_switch_def opcode_simps Let_def)
qed

lemma debugger_announce:
  assumes "kdb_ok s"
  shows "debugger s line evs =
     readOp (s\<lparr>readbuf := line_hi line # line_lo line # drop 2 (readbuf s),
               serial_out := serial_out s @
                 map Wr (frame (opcode KDB_DEBUGGER) [line_hi line, line_lo line]),
               loops := True\<rparr>) 255 evs"
proof -
  have rb: "length (readbuf s) = 32" using assms by (simp add: kdb_ok_def)
  have u: "(readbuf s)[0 := line_hi line, 1 := line_lo line] =
      line_hi line # line_lo line # drop 2 (readbuf s)"
    using rb by (intro update2) simp
  let ?s1 = "s\<lparr>readbuf := line_hi line # line_lo line # drop 2 (readbuf s)\<rparr>"
  have "sendOp ?s1 (opcode KDB_DEBUGGER) 2 =
     Returned (?s1\<lparr>serial_out := serial_out ?s1 @
        map Wr (frame (opcode KDB_DEBUGGER) (take (unat (2::u8)) (readbuf ?s1)))\<rparr>)"
    using rb by (intro sendOp_inside) simp_all
  then show ?thesis
    unfolding debugger_def Let_def u by simp
qed

lemma doOp_switch_unknown:
  assumes "6 < unat opType"
  shows "doOp_switch opType s = Returned s"
proof -
  have "opType \<noteq> 0" "opType \<noteq> 1" "opType \<noteq> 2" "opType \<noteq> 3" "opType \<noteq> 4"
    "opType \<noteq> 5" "opType \<noteq> 6"
    using assms by auto
  then show ?thesis by (simp add: doOp_switch_def opcode_simps)
qed











section \<open>Writing a frame and reading it back\<close>




section \<open>The session loop\<close>

text \<open>
  C6. While the loop is waiting (\<open>loops\<close> is set; \<open>maxloop\<close> is 255 or leaves room for
  the two polls of the sync bytes), a RETURN frame, that is the sync bytes followed by the
  operation type 0 and the length 0, with any idle polls between the header bytes, clears
  \<open>loops\<close>; \<open>readOp\<close> returns right after the dispatch, without a further poll, and
  nothing has been written to the serial line.
\<close>

theorem return_frame_ends_wait:
  assumes "kdb_ok s" "loops s" "maxloop \<noteq> 1" "maxloop \<noteq> 2"
    and "bytes_of evs = opcode KDB_RETURN # 0 # later"
  shows "doOp s evs =
           Returned (s\<lparr>readbuf := opcode KDB_RETURN # 0 # drop 2 (readbuf s), loops := False\<rparr>,
                     after_bytes 2 evs)
       \<and> readOp s maxloop (Some 0xA0 # Some 0x1E # evs) =
           Returned (s\<lparr>readbuf := opcode KDB_RETURN # 0 # drop 2 (readbuf s), loops := False\<rparr>,
                     after_bytes 2 evs)
       \<and> serial_out (s\<lparr>readbuf := opcode KDB_RETURN # 0 # drop 2 (readbuf s), loops := False\<rparr>)
           = serial_out s"
proof -
  have rb: "length (readbuf s) = 32" using assms(1) by (simp add: kdb_ok_def)
  have d: "doOp s evs =
           Returned (s\<lparr>readbuf := opcode KDB_RETURN # 0 # drop 2 (readbuf s), loops := False\<rparr>,
                     after_bytes 2 evs)"
    using doOp_frame [OF rb, of evs] assms(5)
    by (simp add: doOp_switch_def)
  have "readOp s maxloop (Some 0xA0 # Some 0x1E # evs) =
           Returned (s\<lparr>readbuf := opcode KDB_RETURN # 0 # drop 2 (readbuf s), loops := False\<rparr>,
                     after_bytes 2 evs)"
    using readOp_sync [OF assms(2,3,4), of evs] d by (simp add: readOp_loop_stop)
  then show ?thesis using d by simp
qed

theorem return_frame_ends_wait_witness:
  "kdb_ok (KDB_fresh\<lparr>loops := True\<rparr>) \<and> loops (KDB_fresh\<lparr>loops := True\<rparr>)
   \<and> (255::u8) \<noteq> 1 \<and> (255::u8) \<noteq> 2
   \<and> bytes_of [Some 0, None, Some 0, Some 9] = opcode KDB_RETURN # 0 # [9]
   \<and> readOp (KDB_fresh\<lparr>loops := True\<rparr>) 255 [Some 0xA0, Some 0x1E, Some 0, None, Some 0, Some 9] =
       Returned (KDB_fresh\<lparr>readbuf := 0 # 0 # replicate 30 0, loops := False\<rparr>, [Some 9])"
  using return_frame_ends_wait [of "KDB_fresh\<lparr>loops := True\<rparr>" 255 "[Some 0, None, Some 0, Some 9]" "[9]"]
  by (simp add: opcode_simps kdb_ok_def)

text \<open>
  C1 fails on the code. \<open>readOp\<close> never clears \<open>isOp\<close> when a byte other than
  \<open>0x1E\<close> follows \<open>0xA0\<close>: in the bytes \<open>A0 55 1E 00 00\<close> the two sync bytes are not
  next to each other, yet the \<open>1E\<close> starts the dispatch of the RETURN frame \<open>00 00\<close>,
  and \<open>loops\<close> is cleared.
\<close>

theorem lone_sync_byte_still_dispatches:
  "\<not> has_sync [0xA0, 0x55, 0x1E, 0, 0]
   \<and> readOp (KDB_fresh\<lparr>loops := True\<rparr>) 255 (map Some [0xA0, 0x55, 0x1E, 0, 0]) =
       Returned (KDB_fresh\<lparr>readbuf := 0 # 0 # replicate 30 0, loops := False\<rparr>, [])"
proof -
  let ?s = "KDB_fresh\<lparr>loops := True\<rparr>"
  have "doOp ?s (map Some [0, 0]) = Returned (KDB_fresh\<lparr>readbuf := 0 # 0 # replicate 30 0, loops := False\<rparr>, [])"
    using doOp_frame [of ?s "map Some [0, 0]"] by (simp add: doOp_switch_def opcode_simps)
  then have "readOp_loop ?s 255 1 (map Some [0x1E, 0, 0]) = Returned (KDB_fresh\<lparr>readbuf := 0 # 0 # replicate 30 0, loops := False\<rparr>, [])"
    using readOp_loop_poll(4) [of ?s 255 "map Some [0, 0]"] by (simp add: readOp_loop_stop)
  moreover have "readOp_loop ?s 255 1 (map Some [0x55, 0x1E, 0, 0]) =
      readOp_loop ?s 255 1 (map Some [0x1E, 0, 0])"
    using readOp_loop_poll(5) [of ?s 255 "0x55" 1 "map Some [0x1E, 0, 0]"] by simp
  moreover have "readOp ?s 255 (map Some [0xA0, 0x55, 0x1E, 0, 0]) =
      readOp_loop ?s 255 1 (map Some [0x55, 0x1E, 0, 0])"
    using readOp_loop_poll(3) [of ?s 255 0 "map Some [0x55, 0x1E, 0, 0]"] by (simp add: readOp_def)
  ultimately show ?thesis by simp
qed





section \<open>The operation types on the wire\<close>

text \<open>
  C10. The operation types have the byte values of their position in the enumeration:
  RETURN 0, READ_MEM 1, WRITE_MEM 2, READ_CAP 3, WRITE_CAP 4, READ_PIN 5, WRITE_PIN 6, INIT 7,
  DEBUGGER 8, CAPTURE 9, READ_MEM_RES 10, READ_CAP_RES 11, READ_PIN_RES 12, PRINT 13. Every
  frame the program writes carries one of these values as its third byte, after the two sync
  bytes: \<open>sendOp\<close> writes the operation type it is given, and the serial line gets 8 from
  \<open>debugger\<close>, 9 from \<open>capture\<close>, 7 from each round of \<open>init\<close>, 13 from \<open>print\<close>
  and from \<open>println\<close>, and 10, 11 and 12 in the answers to READ_MEM, READ_CAP and READ_PIN.
  A received frame is dispatched on its first header byte by the same values: 0 to 6 select
  the seven operations, and every other value is ignored.
\<close>

theorem opcode_wire_values:
  assumes "kdb_ok s"
  shows "map opcode KDB_OpType_enumerators = [0, 1, 2, 3, 4, 5, 6, 7, 8, 9, 10, 11, 12, 13]
   \<and> opcode KDB_RETURN = 0 \<and> opcode KDB_READ_MEM = 1 \<and> opcode KDB_WRITE_MEM = 2
   \<and> opcode KDB_READ_CAP = 3 \<and> opcode KDB_WRITE_CAP = 4 \<and> opcode KDB_READ_PIN = 5
   \<and> opcode KDB_WRITE_PIN = 6 \<and> opcode KDB_INIT = 7 \<and> opcode KDB_DEBUGGER = 8
   \<and> opcode KDB_CAPTURE = 9 \<and> opcode KDB_READ_MEM_RES = 10 \<and> opcode KDB_READ_CAP_RES = 11
   \<and> opcode KDB_READ_PIN_RES = 12 \<and> opcode KDB_PRINT = 13
   \<and> frame opType payload = [0xA0, 0x1E, opType, of_nat (length payload)] @ payload
   \<and> (unat opSize \<le> 32 \<longrightarrow>
        sendOp s opType opSize =
          Returned (s\<lparr>serial_out := serial_out s @
                      map Wr (frame opType (take (unat opSize) (readbuf s)))\<rparr>))
   \<and> debugger s line evs =
        readOp (s\<lparr>readbuf := line_hi line # line_lo line # drop 2 (readbuf s),
                  serial_out := serial_out s @ map Wr (frame 8 [line_hi line, line_lo line]),
                  loops := True\<rparr>) 255 evs
   \<and> (unat (capsize s) < 32 \<longrightarrow>
        capture s line x sz =
          Returned (s\<lparr>caps := (caps s)[unat (capsize s) := \<lparr>slot_size = sz, slot_ptr = x\<rparr>],
                      capsize := capsize s + 1,
                      readbuf := capture_payload line x sz (capsize s) @ drop 8 (readbuf s),
                      serial_out := serial_out s @
                        map Wr (frame 9 (capture_payload line x sz (capsize s)))\<rparr>))
   \<and> init s line evs = init_loop (s\<lparr>loops := True, capsize := 0\<rparr>) line evs
   \<and> (loops s \<longrightarrow>
        init_loop s line evs =
          (case readOp (s\<lparr>readbuf := line_hi line # line_lo line # drop 2 (readbuf s),
                          serial_out := serial_out s @
                            map Wr (frame 7 [line_hi line, line_lo line])\<rparr>) 200 evs of
             Returned (s3, rest) \<Rightarrow> init_loop (delay s3 100) line rest
           | Starved t \<Rightarrow> Starved t
           | Undefined e t \<Rightarrow> Undefined e t))
   \<and> print s line str =
        Returned (s\<lparr>readbuf := ([line_hi line, line_lo line, 0]
                                  @ take (min 29 (length str mod 256)) str)
                               @ drop (3 + min 29 (length str mod 256)) (readbuf s),
                    serial_out := serial_out s @
                      map Wr (frame 13 ([line_hi line, line_lo line, 0]
                                          @ take (min 29 (length str mod 256)) str))\<rparr>)
   \<and> println s line str =
        Returned (s\<lparr>readbuf := ([line_hi line, line_lo line, 1]
                                  @ take (min 29 (length str mod 256)) str)
                               @ drop (3 + min 29 (length str mod 256)) (readbuf s),
                    serial_out := serial_out s @
                      map Wr (frame 13 ([line_hi line, line_lo line, 1]
                                          @ take (min 29 (length str mod 256)) str))\<rparr>)
   \<and> doOp_switch 0 s = Returned (s\<lparr>loops := False\<rparr>)
   \<and> (unat (readbuf s ! 4) \<le> 32 \<longrightarrow>
        doOp_switch 1 s =
          Returned (s\<lparr>readbuf :=
                        mem_read (memory s) (addr_of_readbuf s) (unat (readbuf s ! 4))
                        @ drop (unat (readbuf s ! 4)) (readbuf s),
                      serial_out := serial_out s @
                        map Wr (frame 10
                          (mem_read (memory s) (addr_of_readbuf s) (unat (readbuf s ! 4))))\<rparr>))
   \<and> doOp_switch 2 s = memcpy_from_readbuf s (addr_of_readbuf s) 5 (unat (readbuf s ! 4))
   \<and> (unat (readbuf s ! 0) < 32 \<and> unat (slot_size (caps s ! unat (readbuf s ! 0))) \<le> 32 \<longrightarrow>
        doOp_switch 3 s =
          Returned (s\<lparr>readbuf :=
                        mem_read (memory s) (slot_ptr (caps s ! unat (readbuf s ! 0)))
                          (unat (slot_size (caps s ! unat (readbuf s ! 0))))
                        @ drop (unat (slot_size (caps s ! unat (readbuf s ! 0)))) (readbuf s),
                      serial_out := serial_out s @
                        map Wr (frame 11
                          (mem_read (memory s) (slot_ptr (caps s ! unat (readbuf s ! 0)))
                             (unat (slot_size (caps s ! unat (readbuf s ! 0))))))\<rparr>))
   \<and> doOp_switch 4 s =
        (if unat (readbuf s ! 0) < 32
         then memcpy_from_readbuf s (slot_ptr (caps s ! unat (readbuf s ! 0))) 1
                (unat (slot_size (caps s ! unat (readbuf s ! 0))))
         else Undefined (CapsIndex (unat (readbuf s ! 0))) s)
   \<and> doOp_switch 5 s =
        Returned (s\<lparr>readbuf := digitalRead s (readbuf s ! 0) # drop 1 (readbuf s),
                    serial_out := serial_out s @
                      map Wr (frame 12 [digitalRead s (readbuf s ! 0)])\<rparr>)
   \<and> doOp_switch 6 s = Returned (digitalWrite s (readbuf s ! 0) (readbuf s ! 1))
   \<and> (\<forall>t. 6 < unat t \<longrightarrow> doOp_switch t s = Returned s)
   \<and> (2 \<le> length (bytes_of evs) \<and> unat (bytes_of evs ! 1) \<le> 32
        \<and> 2 + unat (bytes_of evs ! 1) \<le> length (bytes_of evs) \<longrightarrow>
        doOp s evs =
          and_then
            (doOp_switch (bytes_of evs ! 0)
               (s\<lparr>readbuf := take (unat (bytes_of evs ! 1)) (drop 2 (bytes_of evs))
                      @ drop (unat (bytes_of evs ! 1))
                          (bytes_of evs ! 0 # bytes_of evs ! 1 # drop 2 (readbuf s))\<rparr>))
            (\<lambda>s'. Returned (s', after_bytes (2 + unat (bytes_of evs ! 1)) evs)))"
proof -
  have rb: "length (readbuf s) = 32" using assms by (simp add: kdb_ok_def)
  have vals: "map opcode KDB_OpType_enumerators = [0, 1, 2, 3, 4, 5, 6, 7, 8, 9, 10, 11, 12, 13]"
    by (simp add: opcode_def KDB_OpType_enumerators_def)
  have fr: "frame opType payload = [0xA0, 0x1E, opType, of_nat (length payload)] @ payload"
    by (simp add: frame_def)
  have snd: "unat opSize \<le> 32 \<longrightarrow>
        sendOp s opType opSize =
          Returned (s\<lparr>serial_out := serial_out s @
                      map Wr (frame opType (take (unat opSize) (readbuf s)))\<rparr>)"
    using sendOp_inside [OF _ rb] by simp
  have dbg: "debugger s line evs =
        readOp (s\<lparr>readbuf := line_hi line # line_lo line # drop 2 (readbuf s),
                  serial_out := serial_out s @ map Wr (frame 8 [line_hi line, line_lo line]),
                  loops := True\<rparr>) 255 evs"
    using debugger_announce [OF assms] by (simp add: opcode_simps)
  have cap: "unat (capsize s) < 32 \<longrightarrow>
        capture s line x sz =
          Returned (s\<lparr>caps := (caps s)[unat (capsize s) := \<lparr>slot_size = sz, slot_ptr = x\<rparr>],
                      capsize := capsize s + 1,
                      readbuf := capture_payload line x sz (capsize s) @ drop 8 (readbuf s),
                      serial_out := serial_out s @
                        map Wr (frame 9 (capture_payload line x sz (capsize s)))\<rparr>)"
    using capture_inside [OF assms] by (simp add: opcode_simps)
  have ini: "loops s \<longrightarrow>
        init_loop s line evs =
          (case readOp (s\<lparr>readbuf := line_hi line # line_lo line # drop 2 (readbuf s),
                          serial_out := serial_out s @
                            map Wr (frame 7 [line_hi line, line_lo line])\<rparr>) 200 evs of
             Returned (s3, rest) \<Rightarrow> init_loop (delay s3 100) line rest
           | Starved t \<Rightarrow> Starved t
           | Undefined e t \<Rightarrow> Undefined e t)"
    using init_announce [OF assms, of line]
    by (subst init_loop.simps) (simp add: Let_def init_frame_def opcode_simps)
  define n where "n = min 29 (length str mod 256)"
  define len :: u8 where
    "len = (if (of_nat (length str) :: u8) > 29 then 29 else of_nat (length str))"
  have len: "unat len = n"
    unfolding len_def n_def by (rule print_len)
  have p0: "print s line str =
      Returned (s\<lparr>readbuf := ([line_hi line, line_lo line, 0] @ take n str) @ drop (3 + n) (readbuf s),
         serial_out := serial_out s @ map Wr (frame 13 ([line_hi line, line_lo line, 0] @ take n str))\<rparr>)"
    using print_core [OF assms n_def len, of "line_hi line" "line_lo line" 0 13]
    by (simp add: print_def Let_def len_def opcode_simps)
  have p1: "println s line str =
      Returned (s\<lparr>readbuf := ([line_hi line, line_lo line, 1] @ take n str) @ drop (3 + n) (readbuf s),
         serial_out := serial_out s @ map Wr (frame 13 ([line_hi line, line_lo line, 1] @ take n str))\<rparr>)"
    using print_core [OF assms n_def len, of "line_hi line" "line_lo line" 1 13]
    by (simp add: println_def Let_def len_def opcode_simps)
  have sw0: "doOp_switch 0 s = Returned (s\<lparr>loops := False\<rparr>)"
    and sw2: "doOp_switch 2 s = memcpy_from_readbuf s (addr_of_readbuf s) 5 (unat (readbuf s ! 4))"
    and sw4: "doOp_switch 4 s =
        (if unat (readbuf s ! 0) < 32
         then memcpy_from_readbuf s (slot_ptr (caps s ! unat (readbuf s ! 0))) 1
                (unat (slot_size (caps s ! unat (readbuf s ! 0))))
         else Undefined (CapsIndex (unat (readbuf s ! 0))) s)"
    and sw6: "doOp_switch 6 s = Returned (digitalWrite s (readbuf s ! 0) (readbuf s ! 1))"
    by (simp_all add: doOp_switch_def opcode_simps Let_def)
  have sw1: "unat (readbuf s ! 4) \<le> 32 \<longrightarrow>
        doOp_switch 1 s =
          Returned (s\<lparr>readbuf :=
                        mem_read (memory s) (addr_of_readbuf s) (unat (readbuf s ! 4))
                        @ drop (unat (readbuf s ! 4)) (readbuf s),
                      serial_out := serial_out s @
                        map Wr (frame 10
                          (mem_read (memory s) (addr_of_readbuf s) (unat (readbuf s ! 4))))\<rparr>)"
    using read_mem_inside [OF assms] by (simp add: opcode_simps)
  have sw3: "unat (readbuf s ! 0) < 32 \<and> unat (slot_size (caps s ! unat (readbuf s ! 0))) \<le> 32 \<longrightarrow>
        doOp_switch 3 s =
          Returned (s\<lparr>readbuf :=
                        mem_read (memory s) (slot_ptr (caps s ! unat (readbuf s ! 0)))
                          (unat (slot_size (caps s ! unat (readbuf s ! 0))))
                        @ drop (unat (slot_size (caps s ! unat (readbuf s ! 0)))) (readbuf s),
                      serial_out := serial_out s @
                        map Wr (frame 11
                          (mem_read (memory s) (slot_ptr (caps s ! unat (readbuf s ! 0)))
                             (unat (slot_size (caps s ! unat (readbuf s ! 0))))))\<rparr>)"
    using read_cap_inside [OF assms] by (simp add: opcode_simps)
  have sw5: "doOp_switch 5 s =
        Returned (s\<lparr>readbuf := digitalRead s (readbuf s ! 0) # drop 1 (readbuf s),
                    serial_out := serial_out s @
                      map Wr (frame 12 [digitalRead s (readbuf s ! 0)])\<rparr>)"
    using read_pin_inside [OF assms] by (simp add: opcode_simps)
  have unk: "\<forall>t. 6 < unat t \<longrightarrow> doOp_switch t s = Returned s"
    by (simp add: doOp_switch_unknown)
  have dis: "2 \<le> length (bytes_of evs) \<and> unat (bytes_of evs ! 1) \<le> 32
        \<and> 2 + unat (bytes_of evs ! 1) \<le> length (bytes_of evs) \<longrightarrow>
        doOp s evs =
          and_then
            (doOp_switch (bytes_of evs ! 0)
               (s\<lparr>readbuf := take (unat (bytes_of evs ! 1)) (drop 2 (bytes_of evs))
                      @ drop (unat (bytes_of evs ! 1))
                          (bytes_of evs ! 0 # bytes_of evs ! 1 # drop 2 (readbuf s))\<rparr>))
            (\<lambda>s'. Returned (s', after_bytes (2 + unat (bytes_of evs ! 1)) evs))"
    using doOp_frame [OF rb, of evs] by blast
  note parts = vals opcode_simps fr snd dbg cap init_def [of s line evs] ini
    p0 [unfolded n_def] p1 [unfolded n_def] sw0 sw1 sw2 sw3 sw4 sw5 sw6 unk dis
  show ?thesis
    by (intro conjI parts)
qed


theorem opcode_wire_values_witness:
  "kdb_ok (KDB_fresh\<lparr>loops := True\<rparr>) \<and> loops (KDB_fresh\<lparr>loops := True\<rparr>)
   \<and> unat (2 :: u8) \<le> 32 \<and> unat (capsize (KDB_fresh\<lparr>loops := True\<rparr>)) < 32
   \<and> unat (readbuf (KDB_fresh\<lparr>loops := True\<rparr>) ! 4) \<le> 32
   \<and> unat (readbuf (KDB_fresh\<lparr>loops := True\<rparr>) ! 0) < 32
   \<and> 6 < unat (99 :: u8)
   \<and> 2 + unat (bytes_of [Some 6, Some 2, Some 13, Some 1] ! 1)
        \<le> length (bytes_of [Some 6, Some 2, Some 13, Some 1])
   \<and> sendOp (KDB_fresh\<lparr>loops := True\<rparr>) 6 2 =
       Returned (KDB_fresh\<lparr>loops := True,
                   serial_out := map Wr [0xA0, 0x1E, 6, 2] @ replicate 2 (Wr 0)\<rparr>)
   \<and> print (KDB_fresh\<lparr>loops := True\<rparr>) 42 [104, 105] =
       Returned (KDB_fresh\<lparr>readbuf := [0, 42, 0, 104, 105] @ replicate 27 0, loops := True,
                   serial_out := map Wr [0xA0, 0x1E, 13, 5, 0, 42, 0, 104, 105]\<rparr>)
   \<and> println (KDB_fresh\<lparr>loops := True\<rparr>) 42 [104, 105] =
       Returned (KDB_fresh\<lparr>readbuf := [0, 42, 1, 104, 105] @ replicate 27 0, loops := True,
                   serial_out := map Wr [0xA0, 0x1E, 13, 5, 0, 42, 1, 104, 105]\<rparr>)
   \<and> capture (KDB_fresh\<lparr>loops := True\<rparr>) 42 16 4 =
       Returned (KDB_fresh\<lparr>caps := (caps KDB_fresh)[0 := \<lparr>slot_size = 4, slot_ptr = 16\<rparr>],
                   capsize := 1,
                   readbuf := [0, 42, 0, 0, 0, 16, 4, 0] @ replicate 24 0, loops := True,
                   serial_out := map Wr [0xA0, 0x1E, 9, 8, 0, 42, 0, 0, 0, 16, 4, 0]\<rparr>)
   \<and> debugger (KDB_fresh\<lparr>loops := True\<rparr>) 42 [] =
       Starved (KDB_fresh\<lparr>readbuf := 0 # 42 # replicate 30 0, loops := True,
                  serial_out := map Wr [0xA0, 0x1E, 8, 2, 0, 42]\<rparr>)
   \<and> init_loop (KDB_fresh\<lparr>loops := True\<rparr>) 42 [] =
       Starved (KDB_fresh\<lparr>readbuf := 0 # 42 # replicate 30 0, loops := True,
                  serial_out := map Wr [0xA0, 0x1E, 7, 2, 0, 42]\<rparr>)
   \<and> doOp_switch 1 (KDB_fresh\<lparr>loops := True\<rparr>) =
       Returned (KDB_fresh\<lparr>loops := True, serial_out := map Wr [0xA0, 0x1E, 10, 0]\<rparr>)
   \<and> doOp_switch 3 (KDB_fresh\<lparr>loops := True\<rparr>) =
       Returned (KDB_fresh\<lparr>loops := True, serial_out := map Wr [0xA0, 0x1E, 11, 0]\<rparr>)
   \<and> doOp_switch 5 (KDB_fresh\<lparr>loops := True\<rparr>) =
       Returned (KDB_fresh\<lparr>readbuf := 0 # replicate 31 0, loops := True,
                   serial_out := map Wr [0xA0, 0x1E, 12, 1, 0]\<rparr>)
   \<and> doOp_switch 99 (KDB_fresh\<lparr>loops := True\<rparr>) = Returned (KDB_fresh\<lparr>loops := True\<rparr>)
   \<and> doOp (KDB_fresh\<lparr>loops := True\<rparr>) [Some 6, Some 2, Some 13, Some 1] =
       Returned (KDB_fresh\<lparr>readbuf := 13 # 1 # replicate 30 0, loops := True,
                   pin_level := (\<lambda>p. 0)(13 := 1)\<rparr>, [])"
proof -
  let ?s = "KDB_fresh\<lparr>loops := True\<rparr>"
  have ok: "kdb_ok ?s" by (simp add: kdb_ok_def)
  have hl: "line_hi 42 = 0" "line_lo 42 = 42"
    by (simp_all add: line_hi_def line_lo_def)
  have st: "\<And>t :: kdb. loops t \<Longrightarrow> readOp t 255 [] = Starved t"
    "\<And>t :: kdb. loops t \<Longrightarrow> readOp t 200 [] = Starved t"
    by (simp_all add: readOp_def readOp_loop_poll(1))
  note a = opcode_wire_values [OF ok, where opType = 6 and payload = "[]" and opSize = 2
      and line = 42 and evs = "[]" and str = "[104, 105]" and x = 16 and sz = 4]
  note b = opcode_wire_values [OF ok, where opType = 6 and payload = "[]" and opSize = 2
      and line = 42 and evs = "[Some 6, Some 2, Some 13, Some 1]" and str = "[104, 105]"
      and x = 16 and sz = 4]
  have ok': "kdb_ok (?s\<lparr>readbuf := 13 # 1 # replicate 30 0\<rparr>)" by (simp add: kdb_ok_def)
  note c = opcode_wire_values [OF ok', where opType = 6 and payload = "[]" and opSize = 2
      and line = 42 and evs = "[]" and str = "[104, 105]" and x = 16 and sz = 4]
  show ?thesis
    using a b c
    by (simp add: frame_def hl capture_payload_def mem_read_def digitalRead_def digitalWrite_def
        st kdb_ok_def)
qed


section \<open>Debug text output\<close>

text \<open>
  C8. \<open>print\<close> and \<open>println\<close> with a text string emit one frame of operation type PRINT.
  Its payload is the line number in two bytes, high byte first, then the print kind (0 for
  \<open>print\<close>, 1 for \<open>println\<close>), then the leading \<open>n\<close> bytes of the text, where \<open>n\<close>
  is the smaller of 29 and the text length as the \<^verbatim>\<open>uint8_t\<close> holds it. So the text is
  cut to at most 29 bytes, to its first 29 bytes when it is shorter than 256, and the payload
  has at most 32 bytes. The two line bytes carry the low 16 bits of the line number.
\<close>

theorem print_println_frame:
  assumes "kdb_ok s"
  shows "(let n = min 29 (length str mod 256);
              text0 = [line_hi line, line_lo line, 0] @ take n str;
              text1 = [line_hi line, line_lo line, 1] @ take n str
          in print s line str =
               Returned (s\<lparr>readbuf := text0 @ drop (3 + n) (readbuf s),
                           serial_out := serial_out s @ map Wr (frame (opcode KDB_PRINT) text0)\<rparr>)
           \<and> println s line str =
               Returned (s\<lparr>readbuf := text1 @ drop (3 + n) (readbuf s),
                           serial_out := serial_out s @ map Wr (frame (opcode KDB_PRINT) text1)\<rparr>)
           \<and> n \<le> 29 \<and> length text0 \<le> 32 \<and> length text1 \<le> 32
           \<and> (length str < 256 \<longrightarrow> take n str = take 29 str)
           \<and> 256 * unat (line_hi line) + unat (line_lo line) = unat line mod 65536)"
proof -
  define n where "n = min 29 (length str mod 256)"
  define len :: u8 where "len = (if (of_nat (length str) :: u8) > 29 then 29 else of_nat (length str))"
  have len: "unat len = n"
    unfolding len_def n_def by (rule print_len)
  have p0: "print s line str =
      Returned (s\<lparr>readbuf := ([line_hi line, line_lo line, 0] @ take n str) @ drop (3 + n) (readbuf s),
         serial_out := serial_out s @ map Wr (frame (opcode KDB_PRINT) ([line_hi line, line_lo line, 0] @ take n str))\<rparr>)"
    using print_core [OF assms n_def len, of "line_hi line" "line_lo line" 0 "opcode KDB_PRINT"]
    by (simp add: print_def Let_def len_def)
  have p1: "println s line str =
      Returned (s\<lparr>readbuf := ([line_hi line, line_lo line, 1] @ take n str) @ drop (3 + n) (readbuf s),
         serial_out := serial_out s @ map Wr (frame (opcode KDB_PRINT) ([line_hi line, line_lo line, 1] @ take n str))\<rparr>)"
    using print_core [OF assms n_def len, of "line_hi line" "line_lo line" 1 "opcode KDB_PRINT"]
    by (simp add: println_def Let_def len_def)
  have n29: "n \<le> 29" by (simp add: n_def)
  have short: "length str < 256 \<longrightarrow> take n str = take 29 str"
    by (auto simp: n_def min_def)
  show ?thesis
    using p0 p1 n29 short line_bytes [of line]
    by (simp add: Let_def n_def [symmetric])
qed

theorem print_println_frame_witness:
  "kdb_ok KDB_fresh
   \<and> print KDB_fresh 42 [104, 105] =
       Returned (KDB_fresh
         \<lparr>readbuf := [0, 42, 0, 104, 105] @ replicate 27 0,
          serial_out := map Wr [0xA0, 0x1E, 13, 5, 0, 42, 0, 104, 105]\<rparr>)
   \<and> println KDB_fresh 42 [104, 105] =
       Returned (KDB_fresh
         \<lparr>readbuf := [0, 42, 1, 104, 105] @ replicate 27 0,
          serial_out := map Wr [0xA0, 0x1E, 13, 5, 0, 42, 1, 104, 105]\<rparr>)"
  using print_println_frame [of KDB_fresh "[104, 105]" 42]
  by (simp add: kdb_ok_def KDB_fresh_def KDB_new_def Let_def frame_def opcode_simps
      line_hi_def line_lo_def)


section \<open>The capture table\<close>

text \<open>
  C5. After a session reset (\<open>capsize\<close> is 0), at most 32 registrations in a row all
  succeed, and the \<open>i\<close>-th of them, counting from 0, gets slot index \<open>i\<close>: its address
  and size are stored in table entry \<open>i\<close>, the count ends at the number of registrations,
  the serial line carries one CAPTURE frame for each in order, and the last payload byte of
  the \<open>i\<close>-th frame is \<open>i\<close>. The indices are pairwise distinct: none is used twice.
\<close>

theorem capture_indices_sequential:
  assumes "kdb_ok s" "capsize s = 0" "length regs \<le> 32"
  shows "\<exists>s'. captures s regs = Returned s'
      \<and> unat (capsize s') = length regs
      \<and> take (length regs) (caps s') = map slot_of regs
      \<and> serial_out s' = serial_out s @ concat (map capture_frame (enumerate 0 regs))
      \<and> map (\<lambda>ireg. last (capture_frame ireg)) (enumerate 0 regs) =
          map (\<lambda>i. Wr (of_nat i)) [0..<length regs]
      \<and> distinct (map (of_nat :: nat \<Rightarrow> u8) [0..<length regs])"
proof -
  have "unat (capsize s) + length regs \<le> 32"
    using assms by simp
  from captures_run [OF assms(1) this] obtain s' where
    s': "captures s regs = Returned s'"
      "unat (capsize s') = unat (capsize s) + length regs"
      "caps s' = take (unat (capsize s)) (caps s) @ map slot_of regs
                     @ drop (unat (capsize s) + length regs) (caps s)"
      "serial_out s' = serial_out s @ concat (map capture_frame (enumerate (unat (capsize s)) regs))"
    by blast
  have "distinct (map (of_nat :: nat \<Rightarrow> u8) [0..<length regs])"
    using assms(3) by (intro distinct_u8_indices) simp
  then show ?thesis
    using s' assms(2) last_capture_frames [of 0 regs] by simp
qed

theorem capture_indices_sequential_witness:
  "kdb_ok KDB_fresh \<and> capsize KDB_fresh = 0 \<and> length [(10, 16, 4), (11, 20, 2) :: u32 \<times> u32 \<times> u8] \<le> 32
   \<and> (\<exists>s'. captures KDB_fresh [(10, 16, 4), (11, 20, 2)] = Returned s'
        \<and> unat (capsize s') = Suc (Suc 0)
        \<and> take (Suc (Suc 0)) (caps s') = [\<lparr>slot_size = 4, slot_ptr = 16\<rparr>, \<lparr>slot_size = 2, slot_ptr = 20\<rparr>]
        \<and> serial_out s' =
            map Wr [0xA0, 0x1E, 9, 8, 0, 10, 0, 0, 0, 16, 4, 0,
                    0xA0, 0x1E, 9, 8, 0, 11, 0, 0, 0, 20, 2, 1])"
  using capture_indices_sequential [of KDB_fresh "[(10, 16, 4), (11, 20, 2)]"]
  by (simp add: slot_of_def capture_frame_def frame_def capture_payload_def opcode_simps
      line_hi_def line_lo_def)


text \<open>
  C4, as the code has it. While the table holds fewer than 32 entries, a registration stores
  the slot in the table at index \<open>capsize\<close>, announces it and increments the count.
  \<^verbatim>\<open>READ_CAP\<close> and \<^verbatim>\<open>WRITE_CAP\<close> with an index below 32 work on the table entry
  at that index, whatever the count of registered slots is, and never reach outside the
  table. No path of the code reports a capacity or an out-of-range error.
\<close>

theorem capture_table_stays_in_bounds:
  assumes "kdb_ok s"
  shows "(unat (capsize s) < 32 \<longrightarrow>
            capture s line x sz =
              Returned (s\<lparr>caps := (caps s)[unat (capsize s) := \<lparr>slot_size = sz, slot_ptr = x\<rparr>],
                          capsize := capsize s + 1,
                          readbuf := capture_payload line x sz (capsize s) @ drop 8 (readbuf s),
                          serial_out := serial_out s @
                            map Wr (frame (opcode KDB_CAPTURE)
                                      (capture_payload line x sz (capsize s)))\<rparr>))
       \<and> (unat (readbuf s ! 0) < 32 \<longrightarrow>
            doOp_switch (opcode KDB_READ_CAP) s =
              and_then
                (memcpy_to_readbuf s (slot_ptr (caps s ! unat (readbuf s ! 0)))
                   (unat (slot_size (caps s ! unat (readbuf s ! 0)))))
                (\<lambda>s'. sendOp s' (opcode KDB_READ_CAP_RES) (slot_size (caps s ! unat (readbuf s ! 0))))
          \<and> doOp_switch (opcode KDB_WRITE_CAP) s =
              memcpy_from_readbuf s (slot_ptr (caps s ! unat (readbuf s ! 0))) 1
                (unat (slot_size (caps s ! unat (readbuf s ! 0))))
          \<and> (\<forall>k t. doOp_switch (opcode KDB_READ_CAP) s \<noteq> Undefined (CapsIndex k) t
                   \<and> doOp_switch (opcode KDB_WRITE_CAP) s \<noteq> Undefined (CapsIndex k) t))"
proof (intro conjI impI allI)
  assume "unat (capsize s) < 32"
  then show "capture s line x sz =
              Returned (s\<lparr>caps := (caps s)[unat (capsize s) := \<lparr>slot_size = sz, slot_ptr = x\<rparr>],
                          capsize := capsize s + 1,
                          readbuf := capture_payload line x sz (capsize s) @ drop 8 (readbuf s),
                          serial_out := serial_out s @
                            map Wr (frame (opcode KDB_CAPTURE)
                                      (capture_payload line x sz (capsize s)))\<rparr>)"
    using assms by (rule capture_inside [rotated])
next
  assume pos: "unat (readbuf s ! 0) < 32"
  let ?p = "caps s ! unat (readbuf s ! 0)"
  show r: "doOp_switch (opcode KDB_READ_CAP) s =
      and_then (memcpy_to_readbuf s (slot_ptr ?p) (unat (slot_size ?p)))
        (\<lambda>s'. sendOp s' (opcode KDB_READ_CAP_RES) (slot_size ?p))"
    using pos by (simp add: doOp_switch_def opcode_simps Let_def)
  show w: "doOp_switch (opcode KDB_WRITE_CAP) s =
      memcpy_from_readbuf s (slot_ptr ?p) 1 (unat (slot_size ?p))"
    using pos by (simp add: doOp_switch_def opcode_simps Let_def)
  fix k t
  show "doOp_switch (opcode KDB_READ_CAP) s \<noteq> Undefined (CapsIndex k) t"
    unfolding r
    by (intro and_then_no_caps_fault memcpy_to_readbuf_no_caps_fault sendOp_no_caps_fault)
  show "doOp_switch (opcode KDB_WRITE_CAP) s \<noteq> Undefined (CapsIndex k) t"
    unfolding w by (rule memcpy_from_readbuf_no_caps_fault)
qed

theorem capture_table_stays_in_bounds_witness:
  "kdb_ok KDB_fresh \<and> unat (capsize KDB_fresh) < 32 \<and> unat (readbuf KDB_fresh ! 0) < 32
   \<and> capture KDB_fresh 7 16 4 =
       Returned (KDB_fresh\<lparr>caps := (caps KDB_fresh)[0 := \<lparr>slot_size = 4, slot_ptr = 16\<rparr>],
                   capsize := 1,
                   readbuf := [0, 7, 0, 0, 0, 16, 4, 0] @ replicate 24 0,
                   serial_out := map Wr [0xA0, 0x1E, 9, 8, 0, 7, 0, 0, 0, 16, 4, 0]\<rparr>)
   \<and> doOp_switch (opcode KDB_READ_CAP) KDB_fresh =
       Returned (KDB_fresh\<lparr>serial_out := map Wr [0xA0, 0x1E, 11, 0]\<rparr>)
   \<and> doOp_switch (opcode KDB_WRITE_CAP) KDB_fresh = Returned KDB_fresh
   \<and> doOp_switch (opcode KDB_READ_CAP) KDB_fresh \<noteq> Undefined (CapsIndex 0) KDB_fresh"
  using capture_table_stays_in_bounds [of KDB_fresh 7 16 4]
  by (simp add: capture_payload_def frame_def opcode_simps line_hi_def line_lo_def
      memcpy_to_readbuf_def memcpy_from_readbuf_def mem_read_def sendOp_inside)

text \<open>
  C4 as claimed fails. \<^verbatim>\<open>READ_CAP\<close> of index 5 on an object without any registration
  is answered with an empty \<^verbatim>\<open>READ_CAP_RES\<close> frame, not with an error. A registration
  when the count is 32 goes to \<open>caps[32]\<close>, outside the table.
\<close>

theorem unregistered_lookup_and_full_table:
  "doOp KDB_fresh (map Some [3, 1, 5]) =
     Returned (KDB_fresh\<lparr>readbuf := 5 # 1 # replicate 30 0,
                 serial_out := map Wr [0xA0, 0x1E, 11, 0]\<rparr>, [])
   \<and> capture (KDB_fresh\<lparr>capsize := 32\<rparr>) 7 16 4 =
       Undefined (CapsIndex 32)
         (KDB_fresh\<lparr>capsize := 32, readbuf := [0, 7, 0, 0, 0, 16, 4, 32] @ replicate 24 0\<rparr>)"
proof
  let ?evs = "map Some [3, 1, 5] :: poll list"
  let ?s1 = "KDB_fresh\<lparr>readbuf := 5 # 1 # replicate 30 0\<rparr>"
  have "doOp_recv KDB_fresh ?evs = Returned (3, 1, ?s1, [])"
    using doOp_recv_inside [of KDB_fresh ?evs] by simp
  moreover have "doOp_switch 3 ?s1 = Returned (?s1\<lparr>serial_out := map Wr [0xA0, 0x1E, 11, 0]\<rparr>)"
    using read_cap_inside [of ?s1]
    by (simp add: kdb_ok_def opcode_simps mem_read_def frame_def)
  ultimately show "doOp KDB_fresh ?evs =
     Returned (KDB_fresh\<lparr>readbuf := 5 # 1 # replicate 30 0,
                 serial_out := map Wr [0xA0, 0x1E, 11, 0]\<rparr>, [])"
    by (simp add: doOp_def)
next
  have "(replicate 32 (0::u8))[0 := line_hi 7, 1 := line_lo 7,
                  2 := ucast (drop_bit 24 (16::u32)), 3 := ucast (drop_bit 16 (16::u32)),
                  4 := ucast (drop_bit 8 (16::u32)), 5 := ucast (16::u32),
                  6 := 4, 7 := 32] = [0, 7, 0, 0, 0, 16, 4, 32] @ replicate 24 0"
    unfolding line_hi_def line_lo_def by (subst update8) simp_all
  then show "capture (KDB_fresh\<lparr>capsize := 32\<rparr>) 7 16 4 =
       Undefined (CapsIndex 32)
         (KDB_fresh\<lparr>capsize := 32, readbuf := [0, 7, 0, 0, 0, 16, 4, 32] @ replicate 24 0\<rparr>)"
    by (simp add: capture_def Let_def)
qed


text \<open>
  C9, as the code has it. Let the slot index in byte 0 of the scratch buffer be below 32 and
  let \<open>n\<close> be the size stored in that table entry. If \<open>n\<close> is at most 32,
  \<^verbatim>\<open>READ_CAP\<close> copies \<open>n\<close> bytes from the slot's address to the start of the scratch
  buffer and answers with a \<^verbatim>\<open>READ_CAP_RES\<close> frame of exactly these \<open>n\<close> bytes. If
  \<open>n\<close> is at most 31, \<^verbatim>\<open>WRITE_CAP\<close> stores the \<open>n\<close> bytes at the indices 1 to \<open>n\<close>
  of the scratch buffer at the slot's address, so that reading the slot back gives these
  bytes; the length the frame declared plays no part: whatever \<open>opSize\<close> the received
  header carried, the same \<open>n\<close> bytes of the buffer are written, stale ones included.
\<close>

theorem cap_transfer_uses_slot_size:
  assumes "kdb_ok s" "unat (readbuf s ! 0) < 32"
    and "p = caps s ! unat (readbuf s ! 0)" "n = unat (slot_size p)"
  shows "(n \<le> 32 \<longrightarrow>
            doOp_switch (opcode KDB_READ_CAP) s =
              Returned (s\<lparr>readbuf := mem_read (memory s) (slot_ptr p) n @ drop n (readbuf s),
                          serial_out := serial_out s @
                            map Wr (frame (opcode KDB_READ_CAP_RES)
                                      (mem_read (memory s) (slot_ptr p) n))\<rparr>)
          \<and> length (mem_read (memory s) (slot_ptr p) n) = n)
       \<and> (n \<le> 31 \<longrightarrow>
            doOp_switch (opcode KDB_WRITE_CAP) s =
              Returned (s\<lparr>memory :=
                            mem_write (memory s) (slot_ptr p) (take n (drop 1 (readbuf s)))\<rparr>)
          \<and> length (take n (drop 1 (readbuf s))) = n
          \<and> mem_read (mem_write (memory s) (slot_ptr p) (take n (drop 1 (readbuf s))))
                (slot_ptr p) n = take n (drop 1 (readbuf s))
          \<and> (\<forall>s0 evs opSize rest.
                doOp_recv s0 evs = Returned (opcode KDB_WRITE_CAP, opSize, s, rest) \<longrightarrow>
                doOp s0 evs =
                  Returned (s\<lparr>memory :=
                                mem_write (memory s) (slot_ptr p) (take n (drop 1 (readbuf s)))\<rparr>,
                            rest)))"
proof (intro conjI impI allI)
  assume "n \<le> 32"
  then show "doOp_switch (opcode KDB_READ_CAP) s =
              Returned (s\<lparr>readbuf := mem_read (memory s) (slot_ptr p) n @ drop n (readbuf s),
                          serial_out := serial_out s @
                            map Wr (frame (opcode KDB_READ_CAP_RES)
                                      (mem_read (memory s) (slot_ptr p) n))\<rparr>)"
    using read_cap_inside [OF assms(1,2)] assms(3,4) by simp
  show "length (mem_read (memory s) (slot_ptr p) n) = n" by simp
next
  assume n: "n \<le> 31"
  have rb: "length (readbuf s) = 32" using assms(1) by (simp add: kdb_ok_def)
  let ?data = "take n (drop 1 (readbuf s))"
  show w: "doOp_switch (opcode KDB_WRITE_CAP) s =
      Returned (s\<lparr>memory := mem_write (memory s) (slot_ptr p) ?data\<rparr>)"
    using write_cap_inside [OF assms(2)] n assms(3,4) by simp
  show l: "length ?data = n" using rb n by simp
  have "length ?data \<le> 2 ^ 32" using l n by simp
  then have "mem_read (mem_write (memory s) (slot_ptr p) ?data) (slot_ptr p) (length ?data) = ?data"
    by (rule mem_read_mem_write)
  then show "mem_read (mem_write (memory s) (slot_ptr p) ?data) (slot_ptr p) n = ?data"
    by (simp only: l)
  fix s0 evs opSize rest
  assume "doOp_recv s0 evs = Returned (opcode KDB_WRITE_CAP, opSize, s, rest)"
  then show "doOp s0 evs = Returned (s\<lparr>memory := mem_write (memory s) (slot_ptr p) ?data\<rparr>, rest)"
    using w by (simp add: doOp_def)
qed

theorem cap_transfer_uses_slot_size_witness:
  "kdb_ok (KDB_one_slot 4 (0 # 0xAA # replicate 30 7))
   \<and> unat (readbuf (KDB_one_slot 4 (0 # 0xAA # replicate 30 7)) ! 0) < 32
   \<and> doOp_switch (opcode KDB_READ_CAP) (KDB_one_slot 4 (0 # 0xAA # replicate 30 7)) =
       Returned ((KDB_one_slot 4 ([0, 0, 0, 0] @ replicate 28 7))
                   \<lparr>serial_out := map Wr [0xA0, 0x1E, 11, 4, 0, 0, 0, 0]\<rparr>)
   \<and> doOp_switch (opcode KDB_WRITE_CAP) (KDB_one_slot 4 (0 # 0xAA # replicate 30 7)) =
       Returned ((KDB_one_slot 4 (0 # 0xAA # replicate 30 7))
                   \<lparr>memory := mem_write (\<lambda>a. 0) 16 [0xAA, 7, 7, 7]\<rparr>)
   \<and> doOp (KDB_one_slot 4 (replicate 32 7)) (map Some [4, 2, 0, 0xAA]) =
       Returned ((KDB_one_slot 4 (0 # 0xAA # replicate 30 7))
                   \<lparr>memory := mem_write (\<lambda>a. 0) 16 [0xAA, 7, 7, 7]\<rparr>, [])"
proof -
  let ?s = "KDB_one_slot 4 (0 # 0xAA # replicate 30 7)"
  let ?before = "KDB_one_slot 4 (replicate 32 7)"
  have recv: "doOp_recv ?before (map Some [4, 2, 0, 0xAA]) = Returned (opcode KDB_WRITE_CAP, 2, ?s, [])"
    by (subst doOp_recv_inside) (simp_all add: opcode_simps)
  have r30: "replicate 30 (7::u8) = [7, 7, 7] @ replicate 27 7"
    by (simp add: numeral_eq_Suc)
  have r30': "replicate 30 (7::u8) = [7, 7] @ replicate 28 7"
    by (simp add: numeral_eq_Suc)
  have t: "take 4 (drop 1 (readbuf ?s)) = [0xAA, 7, 7, 7]"
    by (simp add: r30)
  have d: "drop 4 (readbuf ?s) = replicate 28 7"
    by (simp add: r30')
  have m: "mem_read (\<lambda>a. 0 :: u8) (16 :: u32) 4 = [0, 0, 0, 0]"
    by (simp add: mem_read_def numeral_eq_Suc)
  show ?thesis
    using cap_transfer_uses_slot_size [of ?s "\<lparr>slot_size = 4, slot_ptr = 16\<rparr>" 4] recv t d m
    by (simp add: frame_def opcode_simps)
qed

text \<open>
  C9 as claimed, for every registered slot, fails: a slot can be registered with a size above
  32, and \<^verbatim>\<open>READ_CAP\<close> of a slot of 33 bytes copies past the end of the scratch buffer.
\<close>

theorem oversized_slot_leaves_readbuf:
  "capture KDB_fresh 7 16 33 =
     Returned ((KDB_one_slot 33 ([0, 7, 0, 0, 0, 16, 33, 0] @ replicate 24 0))
                 \<lparr>serial_out := map Wr [0xA0, 0x1E, 9, 8, 0, 7, 0, 0, 0, 16, 33, 0]\<rparr>)
   \<and> doOp ((KDB_one_slot 33 ([0, 7, 0, 0, 0, 16, 33, 0] @ replicate 24 0))
                 \<lparr>serial_out := map Wr [0xA0, 0x1E, 9, 8, 0, 7, 0, 0, 0, 16, 33, 0]\<rparr>)
        (map Some [3, 1, 0]) =
     Undefined (ReadbufIndex 32)
       ((KDB_one_slot 33 ([0, 1, 0, 0, 0, 16, 33, 0] @ replicate 24 0))
                 \<lparr>serial_out := map Wr [0xA0, 0x1E, 9, 8, 0, 7, 0, 0, 0, 16, 33, 0]\<rparr>)"
proof
  show "capture KDB_fresh 7 16 33 =
     Returned ((KDB_one_slot 33 ([0, 7, 0, 0, 0, 16, 33, 0] @ replicate 24 0))
                 \<lparr>serial_out := map Wr [0xA0, 0x1E, 9, 8, 0, 7, 0, 0, 0, 16, 33, 0]\<rparr>)"
    using capture_inside [of KDB_fresh 7 16 33]
    by (simp add: KDB_one_slot_def capture_payload_def frame_def opcode_simps
        line_hi_def line_lo_def)
next
  let ?s = "(KDB_one_slot 33 ([0, 7, 0, 0, 0, 16, 33, 0] @ replicate 24 0))
                 \<lparr>serial_out := map Wr [0xA0, 0x1E, 9, 8, 0, 7, 0, 0, 0, 16, 33, 0]\<rparr>"
  let ?s1 = "(KDB_one_slot 33 ([0, 1, 0, 0, 0, 16, 33, 0] @ replicate 24 0))
                 \<lparr>serial_out := map Wr [0xA0, 0x1E, 9, 8, 0, 7, 0, 0, 0, 16, 33, 0]\<rparr>"
  have "doOp_recv ?s (map Some [3, 1, 0]) = Returned (3, 1, ?s1, [])"
    using doOp_recv_inside [of ?s "map Some [3, 1, 0]"] by (simp add: KDB_one_slot_def)
  moreover have "doOp_switch 3 ?s1 = Undefined (ReadbufIndex 32) ?s1"
    by (simp add: doOp_switch_def opcode_simps Let_def memcpy_to_readbuf_def KDB_one_slot_def)
  ultimately show "doOp ?s (map Some [3, 1, 0]) = Undefined (ReadbufIndex 32) ?s1"
    by (simp add: doOp_def)
qed


section \<open>The declared payload length and the scratch buffer\<close>

text \<open>
  C3, as the code has it. When the header of a received frame declares a payload length of
  at most 32, receiving the frame stays inside the scratch buffer: the payload bytes go to
  the indices below the declared length, in order, and the indices from the declared length
  on keep what they held after the header was stored (the operation type at index 0, the
  length at index 1, the old contents above). The call returns once the whole payload has
  arrived and is still polling otherwise. The code has no check of the declared length and
  no way to reject a frame.
\<close>

theorem declared_length_within_readbuf:
  assumes "kdb_ok s" "2 \<le> length (bytes_of evs)" "unat (bytes_of evs ! 1) \<le> 32"
  shows "doOp_recv s evs =
     (if 2 + unat (bytes_of evs ! 1) \<le> length (bytes_of evs)
      then Returned
             (bytes_of evs ! 0, bytes_of evs ! 1,
              s\<lparr>readbuf := take (unat (bytes_of evs ! 1)) (drop 2 (bytes_of evs))
                     @ drop (unat (bytes_of evs ! 1))
                         (bytes_of evs ! 0 # bytes_of evs ! 1 # drop 2 (readbuf s))\<rparr>,
              after_bytes (2 + unat (bytes_of evs ! 1)) evs)
      else Starved
             (s\<lparr>readbuf := drop 2 (bytes_of evs)
                     @ drop (length (bytes_of evs) - 2)
                         (bytes_of evs ! 0 # bytes_of evs ! 1 # drop 2 (readbuf s))\<rparr>))"
  using assms by (intro doOp_recv_inside) (simp_all add: kdb_ok_def)

theorem declared_length_within_readbuf_witness:
  "kdb_ok KDB_fresh \<and> 2 \<le> length (bytes_of (map Some [6, 2, 13, 1]))
   \<and> unat (bytes_of (map Some [6, 2, 13, 1]) ! 1) \<le> 32
   \<and> doOp_recv KDB_fresh (map Some [6, 2, 13, 1]) =
       Returned (6, 2, KDB_fresh\<lparr>readbuf := [13, 1] @ replicate 30 0\<rparr>, [])"
  using declared_length_within_readbuf [of KDB_fresh "map Some [6, 2, 13, 1]"]
  by simp

text \<open>
  C3 as claimed fails: a header that declares 33 payload bytes is not rejected. The 32 first
  payload bytes are stored, and the 33rd is written to index 32, outside the buffer.
\<close>

theorem oversized_frame_overruns_readbuf:
  "doOp KDB_fresh (map Some ([0, 33] @ replicate 33 7)) =
     Undefined (ReadbufIndex 32) (KDB_fresh\<lparr>readbuf := replicate 32 7\<rparr>)"
proof -
  let ?evs = "map Some ([0, 33] @ replicate 33 7) :: poll list"
  let ?s1 = "KDB_fresh\<lparr>readbuf := 0 # 33 # replicate 30 0\<rparr>"
  have b: "bytes_of ?evs = [0, 33] @ replicate 33 7"
    using bytes_of_map_Some [of "[0, 33] @ replicate 33 7" "[]"] by simp
  have a: "after_bytes 2 ?evs = map Some (replicate 33 7)"
    using after_bytes_map_Some [of "[0, 33]" "map Some (replicate 33 7)"] by simp
  have r1: "readSize KDB_fresh 2 ?evs = Returned (?s1, map Some (replicate 33 7))"
    using readSize_inside [of 2 KDB_fresh ?evs] by (simp only: b a) simp
  have b2: "bytes_of (map Some (replicate 33 7)) = replicate 33 7"
    using bytes_of_map_Some [of "replicate 33 7" "[]"] by simp
  have r2: "readSize ?s1 33 (map Some (replicate 33 7)) =
      Undefined (ReadbufIndex 32) (?s1\<lparr>readbuf := take 32 (replicate 33 7)\<rparr>)"
    using readSize_outside [of 33 ?s1 "map Some (replicate 33 7)"] by (simp only: b2) simp
  show ?thesis
    using r1 r2 by (simp add: doOp_def doOp_recv_def Let_def)
qed


end
